theory Spec2Isabelle
  imports Main "HOL-Library.Word"
begin

section \<open>Bytes, buffers and errors\<close>

text \<open>
  A \<^verbatim>\<open>char\<close> buffer is a list of bytes. Offsets and lengths (\<^verbatim>\<open>std::string::size_type\<close>)
  are natural numbers: every offset the code computes is at most four past the length of
  a buffer that exists in memory, so no addition wraps. The sentinel
  \<^verbatim>\<open>std::string::npos\<close> is \<open>None\<close>.
\<close>

type_synonym byte = "8 word"

text \<open>
  Exceptions are values. \<open>Argument_Error\<close> is the \<^verbatim>\<open>pqxx::argument_error\<close> built by
  \<^verbatim>\<open>throw_for_encoding_error\<close>; of its message it keeps the three parts that vary: the
  encoding name, the start offset and the bytes printed. \<open>Failure\<close> is \<^verbatim>\<open>pqxx::failure\<close>
  with its message, \<open>Broken_Connection\<close> is \<^verbatim>\<open>pqxx::broken_connection\<close>, and
  \<open>Other_Exception\<close> any other \<^verbatim>\<open>std::exception\<close> of the line source.
  A read or write outside the extent of a buffer is undefined behaviour in the source;
  the model stops with \<open>Out_Of_Bounds_Read\<close> or \<open>Out_Of_Bounds_Write\<close> and the offset.
\<close>

datatype error =
    Argument_Error string nat "nat list"
  | Failure string
  | Broken_Connection string
  | Other_Exception string
  | Out_Of_Bounds_Read nat
  | Out_Of_Bounds_Write nat

definition and_then :: "'e + 'a \<Rightarrow> ('a \<Rightarrow> 'e + 'b) \<Rightarrow> 'e + 'b" where
  "and_then r f = (case r of Inl e \<Rightarrow> Inl e | Inr v \<Rightarrow> f v)"

text \<open>\<^verbatim>\<open>get_byte\<close>: the byte at an offset, as an unsigned number.\<close>

definition get_byte :: "byte list \<Rightarrow> nat \<Rightarrow> error + nat" where
  "get_byte buffer offset =
     (if offset < length buffer then Inr (unat (buffer ! offset))
      else Inl (Out_Of_Bounds_Read offset))"

text \<open>
  \<^verbatim>\<open>throw_for_encoding_error\<close> reads \<open>count\<close> bytes from \<open>start\<close> on for its message and
  throws. \<open>get_bytes\<close> is its \<^verbatim>\<open>for\<close> loop.
\<close>

primrec get_bytes :: "byte list \<Rightarrow> nat \<Rightarrow> nat \<Rightarrow> error + nat list" where
  "get_bytes buffer offset 0 = Inr []"
| "get_bytes buffer offset (Suc count) =
     and_then (get_byte buffer offset) (\<lambda>b.
     and_then (get_bytes buffer (Suc offset) count) (\<lambda>bs. Inr (b # bs)))"

definition throw_for_encoding_error ::
  "string \<Rightarrow> byte list \<Rightarrow> nat \<Rightarrow> nat \<Rightarrow> error + 'a" where
  "throw_for_encoding_error encoding_name buffer start count =
     (case get_bytes buffer start count of
        Inl e \<Rightarrow> Inl e
      | Inr bs \<Rightarrow> Inl (Argument_Error encoding_name start bs))"

definition between_inc :: "nat \<Rightarrow> nat \<Rightarrow> nat \<Rightarrow> bool" where
  "between_inc v bottom top' \<longleftrightarrow> v \<ge> bottom \<and> v \<le> top'"

section \<open>The glyph scanners\<close>

datatype encoding_group =
    MONOBYTE | BIG5 | EUC_CN | EUC_JP | EUC_JIS_2004 | EUC_KR | EUC_TW | GB18030
  | GBK | JOHAB | MULE_INTERNAL | SJIS | SHIFT_JIS_2004 | UHC | UTF8

type_synonym scanner = "byte list \<Rightarrow> nat \<Rightarrow> nat \<Rightarrow> error + nat option"

definition next_seq_for_euc_jplike :: "byte list \<Rightarrow> nat \<Rightarrow> nat \<Rightarrow> string \<Rightarrow> error + nat option" where
  "next_seq_for_euc_jplike buffer buffer_len start encoding_name =
     (if start \<ge> buffer_len then Inr None
      else and_then (get_byte buffer start) (\<lambda>first_byte.
        if first_byte < 0x80 then Inr (Some (start + 1))
        else if start + 2 > buffer_len then throw_for_encoding_error encoding_name buffer start 1
        else and_then (get_byte buffer (start + 1)) (\<lambda>second_byte.
          if first_byte = 0x8e then
            (if \<not> between_inc second_byte 0xa1 0xfe
             then throw_for_encoding_error encoding_name buffer start 2
             else Inr (Some (start + 2)))
          else if between_inc first_byte 0xa1 0xfe then
            (if \<not> between_inc second_byte 0xa1 0xfe
             then throw_for_encoding_error encoding_name buffer start 2
             else Inr (Some (start + 2)))
          else if first_byte = 0x8f \<and> start + 3 \<le> buffer_len then
            and_then (get_byte buffer (start + 2)) (\<lambda>third_byte.
              if \<not> between_inc second_byte 0xa1 0xfe \<or> \<not> between_inc third_byte 0xa1 0xfe
              then throw_for_encoding_error encoding_name buffer start 3
              else Inr (Some (start + 3)))
          else throw_for_encoding_error encoding_name buffer start 1)))"

definition next_seq_for_sjislike :: "byte list \<Rightarrow> nat \<Rightarrow> nat \<Rightarrow> string \<Rightarrow> error + nat option" where
  "next_seq_for_sjislike buffer buffer_len start encoding_name =
     (if start \<ge> buffer_len then Inr None
      else and_then (get_byte buffer start) (\<lambda>first_byte.
        if first_byte < 0x80 \<or> between_inc first_byte 0xa1 0xdf then Inr (Some (start + 1))
        else if \<not> between_inc first_byte 0x81 0x9f \<and> \<not> between_inc first_byte 0xe0 0xfc
        then throw_for_encoding_error encoding_name buffer start 1
        else if start + 2 > buffer_len
        then throw_for_encoding_error encoding_name buffer start (buffer_len - start)
        else and_then (get_byte buffer (start + 1)) (\<lambda>second_byte.
          if second_byte = 0x7f then throw_for_encoding_error encoding_name buffer start 2
          else if between_inc second_byte 0x40 0x9e \<or> between_inc second_byte 0x9f 0xfc
          then Inr (Some (start + 2))
          else throw_for_encoding_error encoding_name buffer start 2)))"

definition next_seq_MONOBYTE :: scanner where
  "next_seq_MONOBYTE buffer buffer_len start =
     (if start \<ge> buffer_len then Inr None else Inr (Some (start + 1)))"

definition next_seq_BIG5 :: scanner where
  "next_seq_BIG5 buffer buffer_len start =
     (if start \<ge> buffer_len then Inr None
      else and_then (get_byte buffer start) (\<lambda>first_byte.
        if first_byte < 0x80 then Inr (Some (start + 1))
        else if \<not> between_inc first_byte 0x81 0xfe \<or> start + 2 > buffer_len
        then throw_for_encoding_error ''BIG5'' buffer start 1
        else and_then (get_byte buffer (start + 1)) (\<lambda>second_byte.
          if \<not> between_inc second_byte 0x40 0x7e \<and> \<not> between_inc second_byte 0xa1 0xfe
          then throw_for_encoding_error ''BIG5'' buffer start 2
          else Inr (Some (start + 2)))))"

definition next_seq_EUC_CN :: scanner where
  "next_seq_EUC_CN buffer buffer_len start =
     (if start \<ge> buffer_len then Inr None
      else and_then (get_byte buffer start) (\<lambda>first_byte.
        if first_byte < 0x80 then Inr (Some (start + 1))
        else if \<not> between_inc first_byte 0xa1 0xf7 \<or> start + 2 > buffer_len
        then throw_for_encoding_error ''EUC_CN'' buffer start 1
        else and_then (get_byte buffer (start + 1)) (\<lambda>second_byte.
          if \<not> between_inc second_byte 0xa1 0xfe
          then throw_for_encoding_error ''EUC_CN'' buffer start 2
          else Inr (Some (start + 2)))))"

definition next_seq_EUC_JP :: scanner where
  "next_seq_EUC_JP buffer buffer_len start =
     next_seq_for_euc_jplike buffer buffer_len start ''EUC_JP''"

definition next_seq_EUC_JIS_2004 :: scanner where
  "next_seq_EUC_JIS_2004 buffer buffer_len start =
     next_seq_for_euc_jplike buffer buffer_len start ''EUC_JIS_2004''"

definition next_seq_EUC_KR :: scanner where
  "next_seq_EUC_KR buffer buffer_len start =
     (if start \<ge> buffer_len then Inr None
      else and_then (get_byte buffer start) (\<lambda>first_byte.
        if first_byte < 0x80 then Inr (Some (start + 1))
        else if \<not> between_inc first_byte 0xa1 0xfe \<or> start + 2 > buffer_len
        then throw_for_encoding_error ''EUC_KR'' buffer start 1
        else and_then (get_byte buffer (start + 1)) (\<lambda>second_byte.
          if \<not> between_inc second_byte 0xa1 0xfe
          then throw_for_encoding_error ''EUC_KR'' buffer start 1
          else Inr (Some (start + 2)))))"

definition next_seq_EUC_TW :: scanner where
  "next_seq_EUC_TW buffer buffer_len start =
     (if start \<ge> buffer_len then Inr None
      else and_then (get_byte buffer start) (\<lambda>first_byte.
        if first_byte < 0x80 then Inr (Some (start + 1))
        else if start + 2 > buffer_len
        then throw_for_encoding_error ''EUC_KR'' buffer start 1
        else and_then (get_byte buffer (start + 1)) (\<lambda>second_byte.
          if between_inc first_byte 0xa1 0xfe then
            (if \<not> between_inc second_byte 0xa1 0xfe
             then throw_for_encoding_error ''EUC_KR'' buffer start 2
             else Inr (Some (start + 2)))
          else if first_byte \<noteq> 0x8e \<or> start + 4 > buffer_len
          then throw_for_encoding_error ''EUC_KR'' buffer start 1
          else if \<not> between_inc second_byte 0xa1 0xb0
          then throw_for_encoding_error ''EUC_KR'' buffer start 4
          else and_then (get_byte buffer (start + 2)) (\<lambda>third_byte.
            if \<not> between_inc third_byte 0xa1 0xfe
            then throw_for_encoding_error ''EUC_KR'' buffer start 4
            else and_then (get_byte buffer (start + 3)) (\<lambda>fourth_byte.
              if between_inc fourth_byte 0xa1 0xfe then Inr (Some (start + 4))
              else throw_for_encoding_error ''EUC_KR'' buffer start 4)))))"

definition next_seq_GB18030 :: scanner where
  "next_seq_GB18030 buffer buffer_len start =
     (if start \<ge> buffer_len then Inr None
      else and_then (get_byte buffer start) (\<lambda>first_byte.
        if between_inc first_byte 0x80 0xff then Inr (Some (start + 1))
        else if start + 2 > buffer_len
        then throw_for_encoding_error ''GB18030'' buffer start (buffer_len - start)
        else and_then (get_byte buffer (start + 1)) (\<lambda>second_byte.
          if between_inc second_byte 0x40 0xfe then
            (if second_byte = 0x7f
             then throw_for_encoding_error ''GB18030'' buffer start 2
             else Inr (Some (start + 2)))
          else if start + 4 > buffer_len
          then throw_for_encoding_error ''GB18030'' buffer start (buffer_len - start)
          else if \<not> between_inc second_byte 0x30 0x39
          then throw_for_encoding_error ''GB18030'' buffer start 4
          else and_then (get_byte buffer (start + 2)) (\<lambda>third_byte.
            if \<not> between_inc third_byte 0x81 0xfe
            then throw_for_encoding_error ''GB18030'' buffer start 4
            else and_then (get_byte buffer (start + 3)) (\<lambda>fourth_byte.
              if between_inc fourth_byte 0x30 0x39 then Inr (Some (start + 4))
              else throw_for_encoding_error ''GB18030'' buffer start 4)))))"

definition next_seq_GBK :: scanner where
  "next_seq_GBK buffer buffer_len start =
     (if start \<ge> buffer_len then Inr None
      else and_then (get_byte buffer start) (\<lambda>b.
        if b < 0x80 then Inr (Some (start + 1))
        else if start + 2 > buffer_len then throw_for_encoding_error ''GBK'' buffer start 1
        else and_then (get_byte buffer start) (\<lambda>first_byte.
             and_then (get_byte buffer (start + 1)) (\<lambda>second_byte.
          if (between_inc first_byte 0xa1 0xa9 \<and> between_inc second_byte 0xa1 0xfe)
           \<or> (between_inc first_byte 0xb0 0xf7 \<and> between_inc second_byte 0xa1 0xfe)
           \<or> (between_inc first_byte 0x81 0xa0 \<and> between_inc second_byte 0x40 0xfe
                \<and> second_byte \<noteq> 0x7f)
           \<or> (between_inc first_byte 0xaa 0xfe \<and> between_inc second_byte 0x40 0xa0
                \<and> second_byte \<noteq> 0x7f)
           \<or> (between_inc first_byte 0xa8 0xa9 \<and> between_inc second_byte 0x40 0xa0
                \<and> second_byte \<noteq> 0x7f)
           \<or> (between_inc first_byte 0xaa 0xaf \<and> between_inc second_byte 0xa1 0xfe)
           \<or> (between_inc first_byte 0xf8 0xfe \<and> between_inc second_byte 0xa1 0xfe)
           \<or> (between_inc first_byte 0xa1 0xa7 \<and> between_inc second_byte 0x40 0xa0
                \<and> second_byte \<noteq> 0x7f)
          then Inr (Some (start + 2))
          else throw_for_encoding_error ''GBK'' buffer start 2))))"

text \<open>In the JOHAB scanner the source reads \<^verbatim>\<open>second_byte\<close> at \<open>start\<close>, as modelled.\<close>

definition next_seq_JOHAB :: scanner where
  "next_seq_JOHAB buffer buffer_len start =
     (if start \<ge> buffer_len then Inr None
      else and_then (get_byte buffer start) (\<lambda>first_byte.
        if first_byte < 0x80 then Inr (Some (start + 1))
        else if start + 2 > buffer_len then throw_for_encoding_error ''JOHAB'' buffer start 1
        else and_then (get_byte buffer start) (\<lambda>second_byte.
          if (between_inc first_byte 0x84 0xd3
              \<and> (between_inc second_byte 0x41 0x7e \<or> between_inc second_byte 0x81 0xfe))
           \<or> ((between_inc first_byte 0xd8 0xde \<or> between_inc first_byte 0xe0 0xf9)
              \<and> (between_inc second_byte 0x31 0x7e \<or> between_inc second_byte 0x91 0xfe))
          then Inr (Some (start + 2))
          else throw_for_encoding_error ''JOHAB'' buffer start 2)))"

text \<open>
  The last test of the MULE_INTERNAL scanner is a chain of \<^verbatim>\<open>and\<close>, evaluated left to
  right and stopping at the first false operand: the bytes at \<open>start + 2\<close> and
  \<open>start + 4\<close> are read only when the operands before them hold.
\<close>

definition next_seq_MULE_INTERNAL :: scanner where
  "next_seq_MULE_INTERNAL buffer buffer_len start =
     (if start \<ge> buffer_len then Inr None
      else and_then (get_byte buffer start) (\<lambda>first_byte.
        if first_byte < 0x80 then Inr (Some (start + 1))
        else if start + 2 > buffer_len
        then throw_for_encoding_error ''MULE_INTERNAL'' buffer start 1
        else and_then (get_byte buffer (start + 1)) (\<lambda>second_byte.
          if between_inc first_byte 0x81 0x8d \<and> second_byte \<ge> 0xA0
          then Inr (Some (start + 2))
          else if start + 3 > buffer_len
          then throw_for_encoding_error ''MULE_INTERNAL'' buffer start 2
          else if ((first_byte = 0x9A \<and> between_inc second_byte 0xa0 0xdf)
                 \<or> (first_byte = 0x9B \<and> between_inc second_byte 0xe0 0xef)
                 \<or> (between_inc first_byte 0x90 0x99 \<and> second_byte \<ge> 0xa0))
                \<and> second_byte \<ge> 0xA0
          then Inr (Some (start + 3))
          else if start + 4 > buffer_len
          then throw_for_encoding_error ''MULE_INTERNAL'' buffer start 3
          else if \<not> ((first_byte = 0x9C \<and> between_inc second_byte 0xf0 0xf4)
                     \<or> (first_byte = 0x9D \<and> between_inc second_byte 0xf5 0xfe))
          then throw_for_encoding_error ''MULE_INTERNAL'' buffer start 4
          else and_then (get_byte buffer (start + 2)) (\<lambda>third_byte.
            if \<not> third_byte \<ge> 0xa0
            then throw_for_encoding_error ''MULE_INTERNAL'' buffer start 4
            else and_then (get_byte buffer (start + 4)) (\<lambda>fifth_byte.
              if fifth_byte \<ge> 0xa0 then Inr (Some (start + 4))
              else throw_for_encoding_error ''MULE_INTERNAL'' buffer start 4)))))"

definition next_seq_SJIS :: scanner where
  "next_seq_SJIS buffer buffer_len start =
     next_seq_for_sjislike buffer buffer_len start ''SJIS''"

definition next_seq_SHIFT_JIS_2004 :: scanner where
  "next_seq_SHIFT_JIS_2004 buffer buffer_len start =
     next_seq_for_sjislike buffer buffer_len start ''SHIFT_JIS_2004''"

definition next_seq_UHC :: scanner where
  "next_seq_UHC buffer buffer_len start =
     (if start \<ge> buffer_len then Inr None
      else and_then (get_byte buffer start) (\<lambda>first_byte.
        if first_byte < 0x80 then Inr (Some (start + 1))
        else if start + 2 > buffer_len
        then throw_for_encoding_error ''UHC'' buffer start (buffer_len - start)
        else and_then (get_byte buffer (start + 1)) (\<lambda>second_byte.
          if between_inc first_byte 0x80 0xc6 then
            (if between_inc second_byte 0x41 0x5a \<or> between_inc second_byte 0x61 0x7a
                \<or> between_inc second_byte 0x80 0xfe
             then Inr (Some (start + 2))
             else throw_for_encoding_error ''UHC'' buffer start 2)
          else if between_inc first_byte 0xa1 0xfe then
            (if \<not> between_inc second_byte 0xa1 0xfe
             then throw_for_encoding_error ''UHC'' buffer start 2
             else Inr (Some (start + 2)))
          else throw_for_encoding_error ''UHC'' buffer start 1)))"

definition next_seq_UTF8 :: scanner where
  "next_seq_UTF8 buffer buffer_len start =
     (if start \<ge> buffer_len then Inr None
      else and_then (get_byte buffer start) (\<lambda>first_byte.
        if first_byte < 0x80 then Inr (Some (start + 1))
        else if start + 2 > buffer_len
        then throw_for_encoding_error ''UTF8'' buffer start (buffer_len - start)
        else and_then (get_byte buffer (start + 1)) (\<lambda>second_byte.
          if between_inc first_byte 0xc0 0xdf then
            (if \<not> between_inc second_byte 0x80 0xbf
             then throw_for_encoding_error ''UTF8'' buffer start 2
             else Inr (Some (start + 2)))
          else if start + 3 > buffer_len
          then throw_for_encoding_error ''UTF8'' buffer start (buffer_len - start)
          else and_then (get_byte buffer (start + 2)) (\<lambda>third_byte.
            if between_inc first_byte 0xe0 0xef then
              (if between_inc second_byte 0x80 0xbf \<and> between_inc third_byte 0x80 0xbf
               then Inr (Some (start + 3))
               else throw_for_encoding_error ''UTF8'' buffer start 3)
            else if start + 4 > buffer_len
            then throw_for_encoding_error ''UTF8'' buffer start (buffer_len - start)
            else if between_inc first_byte 0xf0 0xf7 then
              (if \<not> (between_inc second_byte 0x80 0xbf \<and> between_inc third_byte 0x80 0xbf)
               then throw_for_encoding_error ''UTF8'' buffer start 4
               else and_then (get_byte buffer (start + 3)) (\<lambda>fourth_byte.
                 if between_inc fourth_byte 0x80 0xbf then Inr (Some (start + 4))
                 else throw_for_encoding_error ''UTF8'' buffer start 4))
            else throw_for_encoding_error ''UTF8'' buffer start 1))))"

text \<open>
  The runtime dispatch \<^verbatim>\<open>next_seq(enc, buffer, buffer_len, start)\<close>. Its closing
  \<^verbatim>\<open>throw pqxx::usage_error\<close> is for a value outside the enumeration, which the datatype
  does not have.
\<close>

definition next_seq :: "encoding_group \<Rightarrow> scanner" where
  "next_seq enc buffer buffer_len start =
     (case enc of
        MONOBYTE \<Rightarrow> next_seq_MONOBYTE buffer buffer_len start
      | BIG5 \<Rightarrow> next_seq_BIG5 buffer buffer_len start
      | EUC_CN \<Rightarrow> next_seq_EUC_CN buffer buffer_len start
      | EUC_JP \<Rightarrow> next_seq_EUC_JP buffer buffer_len start
      | EUC_JIS_2004 \<Rightarrow> next_seq_EUC_JIS_2004 buffer buffer_len start
      | EUC_KR \<Rightarrow> next_seq_EUC_KR buffer buffer_len start
      | EUC_TW \<Rightarrow> next_seq_EUC_TW buffer buffer_len start
      | GB18030 \<Rightarrow> next_seq_GB18030 buffer buffer_len start
      | GBK \<Rightarrow> next_seq_GBK buffer buffer_len start
      | JOHAB \<Rightarrow> next_seq_JOHAB buffer buffer_len start
      | MULE_INTERNAL \<Rightarrow> next_seq_MULE_INTERNAL buffer buffer_len start
      | SJIS \<Rightarrow> next_seq_SJIS buffer buffer_len start
      | SHIFT_JIS_2004 \<Rightarrow> next_seq_SHIFT_JIS_2004 buffer buffer_len start
      | UHC \<Rightarrow> next_seq_UHC buffer buffer_len start
      | UTF8 \<Rightarrow> next_seq_UTF8 buffer buffer_len start)"

section \<open>The stream and its line source\<close>

text \<open>
  A \<^verbatim>\<open>zview\<close> is a pointer into \<^verbatim>\<open>m_row\<close> with a length: \<open>Some (offset, length)\<close>.
  The default-constructed \<^verbatim>\<open>zview\<close> that \<^verbatim>\<open>m_fields.emplace_back()\<close> appends for a null
  field is \<open>None\<close>.
\<close>

type_synonym zview = "(nat \<times> nat) option"

text \<open>
  What the connection hands out on \<^verbatim>\<open>read_copy_line\<close>: a line, or an exception, which
  is a \<^verbatim>\<open>broken_connection\<close> (\<open>Breaks\<close>) or some other one (\<open>Fails\<close>), with its message.
  When nothing is left the copy has ended, and the connection returns the null line.
\<close>

datatype copy_event = Line "byte list" | Breaks string | Fails string

text \<open>
  The members of \<^verbatim>\<open>pqxx::stream_from\<close>, and the state of its collaborators: the lines the
  connection still holds (\<open>conn_lines\<close>), how often \<^verbatim>\<open>read_copy_line\<close> was called
  (\<open>conn_reads\<close>), whether the stream is registered with its transaction, and the errors
  handed to \<^verbatim>\<open>reg_pending_error\<close>. \<open>m_glyph_scanner\<close> is the encoding group whose
  scanner the constructor selected.
\<close>

record stream_from =
  m_glyph_scanner :: encoding_group
  m_finished :: bool
  m_row :: "byte list"
  m_fields :: "zview list"
  conn_lines :: "copy_event list"
  conn_reads :: nat
  registered :: bool
  pending_errors :: "error list"

text \<open>
  Modelled from the spec: the line source \<^verbatim>\<open>read_copy_line\<close> of the connection gate, which
  is not part of the sources. It returns a line, or the null line (\<open>None\<close>, of length 0)
  at the end of the data, or fails with an exception of the connection.
\<close>

definition read_copy_line :: "stream_from \<Rightarrow> (error + byte list option) \<times> stream_from" where
  "read_copy_line s =
     (case conn_lines s of
        [] \<Rightarrow> (Inr None, s\<lparr>conn_reads := conn_reads s + 1\<rparr>)
      | Line l # rest \<Rightarrow>
          (Inr (Some l), s\<lparr>conn_lines := rest, conn_reads := conn_reads s + 1\<rparr>)
      | Breaks m # rest \<Rightarrow>
          (Inl (Broken_Connection m), s\<lparr>conn_lines := rest, conn_reads := conn_reads s + 1\<rparr>)
      | Fails m # rest \<Rightarrow>
          (Inl (Other_Exception m), s\<lparr>conn_lines := rest, conn_reads := conn_reads s + 1\<rparr>))"

definition close :: "stream_from \<Rightarrow> stream_from" where
  "close s = (if \<not> m_finished s then s\<lparr>m_finished := True, registered := False\<rparr> else s)"

text \<open>
  Modelled from the spec: the conversion of a stream to \<^verbatim>\<open>bool\<close>, which \<^verbatim>\<open>get_raw_line\<close>
  tests with \<^verbatim>\<open>if (*this)\<close>. It is declared in the header, which is not part of the
  sources: a stream is true until it is finished.
\<close>

definition operator_bool :: "stream_from \<Rightarrow> bool" where
  operator_bool_def [simp]: "operator_bool s \<longleftrightarrow> \<not> m_finished s"

definition get_raw_line :: "stream_from \<Rightarrow> (error + byte list option) \<times> stream_from" where
  "get_raw_line s =
     (if operator_bool s then
        (case read_copy_line s of
           (Inr line, s') \<Rightarrow> (Inr line, if line = None then close s' else s')
         | (Inl e, s') \<Rightarrow> (Inl e, close s'))
      else (Inr None, s))"

section \<open>Parsing a line\<close>

text \<open>
  The local variables of \<^verbatim>\<open>parse_line\<close> while it walks a line, as offsets: \<open>read_ptr\<close>
  (the source's \<^verbatim>\<open>read\<close>) from \<^verbatim>\<open>line_begin\<close>, \<open>write_ptr\<close> (its \<^verbatim>\<open>write\<close>) and
  \<open>field_begin\<close> from \<^verbatim>\<open>m_row.data()\<close> (\<open>None\<close> is \<^verbatim>\<open>nullptr\<close>); with them the
  two members the walk changes, \<open>p_row\<close> for \<^verbatim>\<open>m_row\<close> and
  \<open>p_fields\<close> for \<^verbatim>\<open>m_fields\<close>. An exception leaves the walk with the state it had
  reached.
\<close>

record parser =
  read_ptr :: nat
  write_ptr :: nat
  field_begin :: "nat option"
  p_row :: "byte list"
  p_fields :: "zview list"

type_synonym parsed = "(error \<times> parser) + parser"

text \<open>\<^verbatim>\<open>*write++ = c\<close>\<close>

definition put :: "byte \<Rightarrow> parser \<Rightarrow> parsed" where
  "put c p =
     (if write_ptr p < length (p_row p)
      then Inr (p\<lparr>p_row := (p_row p)[write_ptr p := c], write_ptr := write_ptr p + 1\<rparr>)
      else Inl (Out_Of_Bounds_Write (write_ptr p), p))"

text \<open>\<^verbatim>\<open>c = *read++\<close>\<close>

definition next_char :: "byte list \<Rightarrow> parser \<Rightarrow> (error \<times> parser) + (byte \<times> parser)" where
  "next_char line p =
     (if read_ptr p < length line then Inr (line ! read_ptr p, p\<lparr>read_ptr := read_ptr p + 1\<rparr>)
      else Inl (Out_Of_Bounds_Read (read_ptr p), p))"

text \<open>
  Ending a field, as the source does at a tab and again after the loop: a null view for
  a null field, else the view from \<open>field_begin\<close> to \<open>write_ptr\<close> and a terminating zero.
\<close>

definition end_field :: "parser \<Rightarrow> parsed" where
  "end_field p =
     (case field_begin p of
        None \<Rightarrow> Inr (p\<lparr>p_fields := p_fields p @ [None]\<rparr>)
      | Some fb \<Rightarrow> put 0 (p\<lparr>p_fields := p_fields p @ [Some (fb, write_ptr p - fb)]\<rparr>))"

text \<open>
  The inner \<^verbatim>\<open>switch\<close>, on the character after a backslash: \<open>0x4E\<close> is \<^verbatim>\<open>'N'\<close>;
  \<open>0x62\<close>, \<open>0x66\<close>, \<open>0x6E\<close>, \<open>0x72\<close>, \<open>0x74\<close>, \<open>0x76\<close> are \<^verbatim>\<open>'b'\<close>, \<^verbatim>\<open>'f'\<close>,
  \<^verbatim>\<open>'n'\<close>, \<^verbatim>\<open>'r'\<close>, \<^verbatim>\<open>'t'\<close>, \<^verbatim>\<open>'v'\<close>, and \<open>0x08\<close>, \<open>0x0C\<close>, \<open>0x0A\<close>, \<open>0x0D\<close>,
  \<open>0x09\<close>, \<open>0x0B\<close> the control characters they stand for.
\<close>

definition escape :: "byte \<Rightarrow> parser \<Rightarrow> parsed" where
  "escape c p =
     (if c = 0x4E then
        (if Some (write_ptr p) \<noteq> field_begin p
         then Inl (Failure ''Null sequence found in nonempty field'', p)
         else Inr (p\<lparr>field_begin := None\<rparr>))
      else if c = 0x62 then put 0x08 p
      else if c = 0x66 then put 0x0C p
      else if c = 0x6E then put 0x0A p
      else if c = 0x72 then put 0x0D p
      else if c = 0x74 then put 0x09 p
      else if c = 0x76 then put 0x0B p
      else put c p)"

text \<open>The outer \<^verbatim>\<open>switch\<close>, on a single-byte character: \<open>0x09\<close> is the tab, \<open>0x5C\<close> the backslash.\<close>

definition single_byte :: "byte list \<Rightarrow> parser \<Rightarrow> parsed" where
  "single_byte line p =
     and_then (next_char line p) (\<lambda>(c, p).
       if c = 0x09 then
         and_then (end_field p) (\<lambda>p. Inr (p\<lparr>field_begin := Some (write_ptr p)\<rparr>))
       else if c = 0x5C then
         (if read_ptr p \<ge> length line then Inl (Failure ''Row ends in backslash'', p)
          else and_then (next_char line p) (\<lambda>(c, p). escape c p))
       else put c p)"

text \<open>\<^verbatim>\<open>while (read < glyph_end) *write++ = *read++;\<close> with \<open>n\<close> the bytes left to copy.\<close>

primrec copy_glyph :: "byte list \<Rightarrow> nat \<Rightarrow> parser \<Rightarrow> parsed" where
  "copy_glyph line 0 p = Inr p"
| "copy_glyph line (Suc n) p =
     and_then (next_char line p) (\<lambda>(c, p). and_then (put c p) (copy_glyph line n))"

text \<open>
  Modelled from the spec: \<^verbatim>\<open>get_glyph_scanner\<close>, which the constructor calls to fill
  \<^verbatim>\<open>m_glyph_scanner\<close> and which is not part of the sources. It hands out the scanning
  function of the encoding group, the one the dispatch \<^verbatim>\<open>next_seq\<close> selects.
\<close>

definition get_glyph_scanner :: "encoding_group \<Rightarrow> scanner" where
  get_glyph_scanner_def [simp]: "get_glyph_scanner enc = next_seq enc"

text \<open>
  The body of the main loop, with \<open>enc\<close> the group of \<^verbatim>\<open>m_glyph_scanner\<close>. Where the
  scanner returns \<^verbatim>\<open>npos\<close>, or an end at or before \<open>read_ptr\<close>, neither branch of the
  source does anything.
\<close>

definition parse_glyph :: "encoding_group \<Rightarrow> byte list \<Rightarrow> parser \<Rightarrow> parsed" where
  "parse_glyph enc line p =
     (case get_glyph_scanner enc line (length line) (read_ptr p) of
        Inl e \<Rightarrow> Inl (e, p)
      | Inr glyph_end \<Rightarrow>
          if glyph_end = Some (read_ptr p + 1) then single_byte line p
          else (case glyph_end of
                  None \<Rightarrow> Inr p
                | Some g \<Rightarrow> copy_glyph line (g - read_ptr p) p))"

text \<open>\<^verbatim>\<open>while (read < line_end)\<close>: \<open>None\<close> is a loop that never ends.\<close>

partial_function (option) parse_loop :: "encoding_group \<Rightarrow> byte list \<Rightarrow> parser \<Rightarrow> parsed option" where
  "parse_loop enc line p =
     (if read_ptr p < length line then
        (case parse_glyph enc line p of
           Inl ep \<Rightarrow> Some (Inl ep)
         | Inr p' \<Rightarrow> parse_loop enc line p')
      else Some (Inr p))"

declare parse_loop.simps [code]

text \<open>\<^verbatim>\<open>m_row.resize(n)\<close>: cut, or filled up with zero bytes.\<close>

definition resize :: "byte list \<Rightarrow> nat \<Rightarrow> byte list" where
  "resize xs n = take n xs @ replicate (n - length xs) 0"

text \<open>\<^verbatim>\<open>parse_line\<close> from the resizing of \<^verbatim>\<open>m_row\<close> to its end.\<close>

definition parse_fields :: "encoding_group \<Rightarrow> byte list \<Rightarrow> byte list \<Rightarrow> parsed option" where
  "parse_fields enc line row0 =
     (case parse_loop enc line
             \<lparr>read_ptr = 0, write_ptr = 0, field_begin = Some 0,
              p_row = resize row0 (length line + 1), p_fields = []\<rparr> of
        None \<Rightarrow> None
      | Some (Inl ep) \<Rightarrow> Some (Inl ep)
      | Some (Inr p) \<Rightarrow> Some (end_field p))"

text \<open>\<^verbatim>\<open>parse_line\<close>: \<open>Some e\<close> is the exception it leaves with, \<open>None\<close> a normal return.\<close>

definition parse_line :: "stream_from \<Rightarrow> (error option \<times> stream_from) option" where
  "parse_line s =
     (if m_finished s then Some (None, s)
      else
        (case get_raw_line (s\<lparr>m_fields := []\<rparr>) of
           (Inl e, s1) \<Rightarrow> Some (Some e, s1)
         | (Inr line, s1) \<Rightarrow>
             (let s2 = (if line = None then s1\<lparr>m_finished := True\<rparr> else s1);
                  line_bytes = (case line of None \<Rightarrow> [] | Some l \<Rightarrow> l)
              in case parse_fields (m_glyph_scanner s2) line_bytes (m_row s2) of
                   None \<Rightarrow> None
                 | Some (Inl (e, p)) \<Rightarrow> Some (Some e, s2\<lparr>m_row := p_row p, m_fields := p_fields p\<rparr>)
                 | Some (Inr p) \<Rightarrow> Some (None, s2\<lparr>m_row := p_row p, m_fields := p_fields p\<rparr>))))"

text \<open>
  \<^verbatim>\<open>read_row\<close> returns a pointer to \<^verbatim>\<open>m_fields\<close> (\<open>Some\<close> of the fields) or \<^verbatim>\<open>nullptr\<close>
  (\<open>None\<close>), or leaves with the exception of \<^verbatim>\<open>parse_line\<close>.
\<close>

definition read_row :: "stream_from \<Rightarrow> ((error + zview list option) \<times> stream_from) option" where
  "read_row s =
     (case parse_line s of
        None \<Rightarrow> None
      | Some (Some e, s') \<Rightarrow> Some (Inl e, s')
      | Some (None, s') \<Rightarrow>
          Some (Inr (if m_finished s' then None else Some (m_fields s')), s'))"

text \<open>The bytes a field view shows: \<open>None\<close> for the null view.\<close>

definition view_bytes :: "byte list \<Rightarrow> zview \<Rightarrow> byte list option" where
  "view_bytes buf v = (case v of None \<Rightarrow> None | Some (off, len) \<Rightarrow> Some (take len (drop off buf)))"

definition field_values :: "stream_from \<Rightarrow> byte list option list" where
  "field_values s = map (view_bytes (m_row s)) (m_fields s)"

text \<open>A stream as its constructor leaves it, on a connection that holds \<open>lines\<close>.\<close>

definition new_stream :: "encoding_group \<Rightarrow> copy_event list \<Rightarrow> stream_from" where
  "new_stream enc lines =
     \<lparr>m_glyph_scanner = enc, m_finished = False, m_row = [], m_fields = [],
      conn_lines = lines, conn_reads = 0, registered = True, pending_errors = []\<rparr>"

section \<open>Draining and closing\<close>

text \<open>The \<^verbatim>\<open>while (not done)\<close> loop of \<^verbatim>\<open>complete\<close>, with the exception that ends it, if any.\<close>

function flush_lines :: "stream_from \<Rightarrow> error option \<times> stream_from" where
  "flush_lines s =
     (case get_raw_line s of
        (Inl e, s') \<Rightarrow> (Some e, s')
      | (Inr line, s') \<Rightarrow> if line = None then (None, s') else flush_lines s')"
  by pat_completeness auto
termination
proof (relation "measure (\<lambda>s. length (conn_lines s))")
  show "wf (measure (\<lambda>s. length (conn_lines s)))" by simp
next
  fix s :: stream_from and x and s' and line
  assume "(x, s') = get_raw_line s" "x = Inr line" "line \<noteq> None"
  then show "(s', s) \<in> measure (\<lambda>s. length (conn_lines s))"
    by (auto simp: get_raw_line_def read_copy_line_def close_def
             split: if_splits list.splits copy_event.splits)
qed

text \<open>
  \<^verbatim>\<open>complete\<close>: a \<^verbatim>\<open>broken_connection\<close> closes the stream and is thrown on; any other
  exception goes to \<^verbatim>\<open>reg_pending_error\<close>, and the stream is closed.
\<close>

definition complete :: "stream_from \<Rightarrow> error option \<times> stream_from" where
  "complete s =
     (if m_finished s then (None, s)
      else
        (case flush_lines s of
           (Some (Broken_Connection m), s') \<Rightarrow> (Some (Broken_Connection m), close s')
         | (Some e, s') \<Rightarrow> (None, close (s'\<lparr>pending_errors := pending_errors s' @ [e]\<rparr>))
         | (None, s') \<Rightarrow> (None, close s')))"

text \<open>What a caller can do with a stream, and what comes back.\<close>

datatype operation = Read_Row | Close | Complete

datatype outcome = Row "zview list" | End_Of_Data | Done | Raised error

definition exec :: "operation \<Rightarrow> stream_from \<Rightarrow> (outcome \<times> stream_from) option" where
  "exec op s =
     (case op of
        Read_Row \<Rightarrow>
          (case read_row s of
             None \<Rightarrow> None
           | Some (Inl e, s') \<Rightarrow> Some (Raised e, s')
           | Some (Inr None, s') \<Rightarrow> Some (End_Of_Data, s')
           | Some (Inr (Some fs), s') \<Rightarrow> Some (Row fs, s'))
      | Close \<Rightarrow> Some (Done, close s)
      | Complete \<Rightarrow>
          (case complete s of
             (Some e, s') \<Rightarrow> Some (Raised e, s')
           | (None, s') \<Rightarrow> Some (Done, s')))"

fun run :: "operation list \<Rightarrow> stream_from \<Rightarrow> (outcome list \<times> stream_from) option" where
  "run [] s = Some ([], s)"
| "run (op # ops) s =
     (case exec op s of
        None \<Rightarrow> None
      | Some (r, s') \<Rightarrow>
          (case run ops s' of None \<Rightarrow> None | Some (rs, s'') \<Rightarrow> Some (r # rs, s'')))"

text \<open>What an operation returns on a finished stream.\<close>

definition after_end :: "operation \<Rightarrow> outcome" where
  "after_end op = (case op of Read_Row \<Rightarrow> End_Of_Data | Close \<Rightarrow> Done | Complete \<Rightarrow> Done)"

section \<open>Notions for the proofs\<close>

text \<open>
  The walk over a line of length \<open>L\<close> keeps \<open>write_ptr\<close> at or behind \<open>read_ptr\<close>, inside a
  row buffer of \<open>L + 1\<close> bytes.
\<close>

definition walk_inv :: "nat \<Rightarrow> parser \<Rightarrow> bool" where
  "walk_inv L p \<longleftrightarrow> write_ptr p \<le> read_ptr p \<and> read_ptr p \<le> L \<and> length (p_row p) = L + 1"

text \<open>
  What the walk has made so far, read off its state: the bytes of the fields it has
  ended (\<open>done_values\<close>), the bytes of the field it is in, or \<open>None\<close> when that field
  is marked null (\<open>cur_value\<close>), and the bytes written into the row buffer (\<open>written\<close>).
  \<open>views_inv\<close>: the views and the start of the current field lie behind \<open>write_ptr\<close>.
\<close>

definition cur_value :: "parser \<Rightarrow> byte list option" where
  "cur_value p =
     (case field_begin p of
        None \<Rightarrow> None
      | Some fb \<Rightarrow> Some (take (write_ptr p - fb) (drop fb (p_row p))))"

definition done_values :: "parser \<Rightarrow> byte list option list" where
  "done_values p = map (view_bytes (p_row p)) (p_fields p)"

definition written :: "parser \<Rightarrow> byte list" where
  "written p = take (write_ptr p) (p_row p)"

definition views_inv :: "parser \<Rightarrow> bool" where
  "views_inv p \<longleftrightarrow>
     (\<forall>off len. Some (off, len) \<in> set (p_fields p) \<longrightarrow> off + len \<le> write_ptr p)
     \<and> (\<forall>fb. field_begin p = Some fb \<longrightarrow> fb \<le> write_ptr p)"

text \<open>The byte an escaped character stands for, when it is not \<^verbatim>\<open>N\<close>.\<close>

definition control_char :: "byte \<Rightarrow> byte" where
  "control_char c =
     (if c = 0x62 then 0x08 else if c = 0x66 then 0x0C else if c = 0x6E then 0x0A
      else if c = 0x72 then 0x0D else if c = 0x74 then 0x09 else if c = 0x76 then 0x0B
      else c)"

text \<open>
  The walk on values instead of offsets, for a line that is scanned byte by byte: from
  the bytes still to read, the fields ended, the current field and the bytes written, to
  the same three at the end of the line, or the exception. The lemma \<open>parse_loop_walk\<close>
  below proves that \<open>parse_loop\<close> computes this.
\<close>

fun walk :: "byte list \<Rightarrow> byte list option list \<Rightarrow> byte list option \<Rightarrow> byte list
             \<Rightarrow> error + (byte list option list \<times> byte list option \<times> byte list)" where
  "walk [] done cur out = Inr (done, cur, out)"
| "walk (c # rest) done cur out =
     (if c = 0x09 then
        walk rest (done @ [cur]) (Some []) (case cur of None \<Rightarrow> out | Some v \<Rightarrow> out @ [0])
      else if c = 0x5C then
        (case rest of
           [] \<Rightarrow> Inl (Failure ''Row ends in backslash'')
         | c' # rest' \<Rightarrow>
             if c' = 0x4E then
               (if cur \<noteq> Some [] then Inl (Failure ''Null sequence found in nonempty field'')
                else walk rest' done None out)
             else walk rest' done (map_option (\<lambda>v. v @ [control_char c']) cur)
                    (out @ [control_char c']))
      else walk rest done (map_option (\<lambda>v. v @ [c]) cur) (out @ [c]))"

definition decode :: "byte list \<Rightarrow> error + (byte list option list \<times> byte list)" where
  "decode line =
     (case walk line [] (Some []) [] of
        Inl e \<Rightarrow> Inl e
      | Inr (d, c, out) \<Rightarrow> Inr (d @ [c], case c of None \<Rightarrow> out | Some v \<Rightarrow> out @ [0]))"

text \<open>
  The walk for any line under any encoding group, with the glyph scanner in it. One turn
  of the main loop at the offset \<open>i\<close> of the line takes the fields ended, the current
  field and the bytes written to the same three after the glyph at \<open>i\<close>, with the offset
  behind it: a glyph of one byte goes through the two \<^verbatim>\<open>switch\<close>es, a longer one is
  copied. Where the scanner hands out no end, or an end that is not behind \<open>i\<close>, nothing
  is read or written, as in the source. An end behind the end of the line, where the
  source would copy bytes from behind the line, is not modelled: no scanner hands one out
  (lemma \<open>next_seq_progress\<close>).
\<close>

definition glyph_step ::
  "encoding_group \<Rightarrow> byte list \<Rightarrow> nat \<Rightarrow> byte list option list \<Rightarrow> byte list option \<Rightarrow> byte list
   \<Rightarrow> error + (nat \<times> byte list option list \<times> byte list option \<times> byte list)" where
  "glyph_step enc line i d c out =
     (case next_seq enc line (length line) i of
        Inl e \<Rightarrow> Inl e
      | Inr glyph_end \<Rightarrow>
          if glyph_end = Some (i + 1) then
            (if line ! i = 0x09 then
               Inr (i + 1, d @ [c], Some [], case c of None \<Rightarrow> out | Some v \<Rightarrow> out @ [0])
             else if line ! i = 0x5C then
               (if i + 1 \<ge> length line then Inl (Failure ''Row ends in backslash'')
                else if line ! (i + 1) = 0x4E then
                  (if c \<noteq> Some [] then Inl (Failure ''Null sequence found in nonempty field'')
                   else Inr (i + 2, d, None, out))
                else Inr (i + 2, d, map_option (\<lambda>v. v @ [control_char (line ! (i + 1))]) c,
                          out @ [control_char (line ! (i + 1))]))
             else Inr (i + 1, d, map_option (\<lambda>v. v @ [line ! i]) c, out @ [line ! i]))
          else (case glyph_end of
                  None \<Rightarrow> Inr (i, d, c, out)
                | Some g \<Rightarrow>
                    Inr (i + (g - i), d, map_option (\<lambda>v. v @ take (g - i) (drop i line)) c,
                         out @ take (g - i) (drop i line))))"

text \<open>
  The turns of the loop up to the end of the line. \<open>None\<close> is a loop that does not
  advance and so never ends; the lemma \<open>parse_loop_gwalk\<close> below proves that this does
  not happen, and that \<open>parse_loop\<close> computes \<open>gwalk\<close>.
\<close>

function gwalk ::
  "encoding_group \<Rightarrow> byte list \<Rightarrow> nat \<Rightarrow> byte list option list \<Rightarrow> byte list option \<Rightarrow> byte list
   \<Rightarrow> (error + (byte list option list \<times> byte list option \<times> byte list)) option" where
  "gwalk enc line i d c out =
     (if i < length line then
        (case glyph_step enc line i d c out of
           Inl e \<Rightarrow> Some (Inl e)
         | Inr (i', d', c', out') \<Rightarrow>
             if i < i' then gwalk enc line i' d' c' out' else None)
      else Some (Inr (d, c, out)))"
  by pat_completeness auto
termination
  by (relation "measure (\<lambda>(enc, line, i, d, c, out). length line - i)") auto

declare gwalk.simps [simp del]

section \<open>Notions of the claims\<close>

text \<open>The stream is open and the next thing its connection hands out is \<open>line\<close>.\<close>

definition reads_line :: "stream_from \<Rightarrow> byte list \<Rightarrow> bool" where
  "reads_line s line \<longleftrightarrow> \<not> m_finished s \<and> (\<exists>rest. conn_lines s = Line line # rest)"

text \<open>
  The lines on which the scanner of an encoding group finds one-byte glyphs only, as far
  as the theorems below need them: every line under MONOBYTE, and the lines of bytes
  below 0x80 under every other group but GB18030.
\<close>

definition scans_bytewise :: "encoding_group \<Rightarrow> byte list \<Rightarrow> bool" where
  "scans_bytewise enc line \<longleftrightarrow>
     enc = MONOBYTE \<or> (enc \<noteq> GB18030 \<and> list_all (\<lambda>b. b < 0x80) line)"

text \<open>
  In the words of the claims: the bytes a run of the line stands for, a backslash and
  the byte after it standing for one byte (\<open>unescape\<close>); a line in which every backslash
  that starts an escape has a byte after it, and that byte is not \<^verbatim>\<open>N\<close>
  (\<open>well_escaped\<close>); and the runs of a line between its tab bytes, a tab after such a
  backslash being part of the run (\<open>split_runs\<close>).
\<close>

fun unescape :: "byte list \<Rightarrow> byte list" where
  "unescape [] = []"
| "unescape [c] = [c]"
| "unescape (c # c' # rest) =
     (if c = 0x5C then control_char c' # unescape rest else c # unescape (c' # rest))"

fun well_escaped :: "byte list \<Rightarrow> bool" where
  "well_escaped [] = True"
| "well_escaped [c] = (c \<noteq> 0x5C)"
| "well_escaped (c # c' # rest) =
     (if c = 0x5C then c' \<noteq> 0x4E \<and> well_escaped rest else well_escaped (c' # rest))"

fun split_runs :: "byte list \<Rightarrow> byte list list" where
  "split_runs [] = [[]]"
| "split_runs [c] = (if c = 0x09 then [[], []] else [[c]])"
| "split_runs (c # c' # rest) =
     (if c = 0x09 then [] # split_runs (c' # rest)
      else if c = 0x5C then (c # c' # hd (split_runs rest)) # tl (split_runs rest)
      else (c # hd (split_runs (c' # rest))) # tl (split_runs (c' # rest)))"

section \<open>Facts about the scanners\<close>

lemma and_then_simps:
  "and_then (Inl e) f = Inl e"
  "and_then (Inr v) f = f v"
  by (simp_all add: and_then_def)

lemmas scanner_defs =
  next_seq_def next_seq_MONOBYTE_def next_seq_BIG5_def next_seq_EUC_CN_def next_seq_EUC_JP_def
  next_seq_EUC_JIS_2004_def next_seq_EUC_KR_def next_seq_EUC_TW_def next_seq_GB18030_def
  next_seq_GBK_def next_seq_JOHAB_def next_seq_MULE_INTERNAL_def next_seq_SJIS_def
  next_seq_SHIFT_JIS_2004_def next_seq_UHC_def next_seq_UTF8_def next_seq_for_euc_jplike_def
  next_seq_for_sjislike_def

lemmas scan_simps =
  get_byte_def between_inc_def throw_for_encoding_error_def and_then_simps

lemma next_seq_Inr_throw [simp]: "throw_for_encoding_error n b s c \<noteq> Inr x"
  by (simp add: throw_for_encoding_error_def split: sum.splits)

lemma and_then_Inr: "and_then r f = Inr x \<longleftrightarrow> (\<exists>v. r = Inr v \<and> f v = Inr x)"
  by (simp add: and_then_def split: sum.splits)

lemma throw_not_write [simp]:
  "throw_for_encoding_error n b s c \<noteq> Inl (Out_Of_Bounds_Write k)"
proof -
  have "get_bytes b s c \<noteq> Inl (Out_Of_Bounds_Write k)" for s
    by (induction c arbitrary: s) (auto simp: get_byte_def and_then_def split: sum.splits)
  then show ?thesis
    by (auto simp: throw_for_encoding_error_def split: sum.splits)
qed

lemma and_then_Inl: "and_then r f = Inl e \<longleftrightarrow> r = Inl e \<or> (\<exists>v. r = Inr v \<and> f v = Inl e)"
  by (simp add: and_then_def split: sum.splits)

lemma next_seq_no_write_fault:
  "next_seq enc buf n start \<noteq> Inl (Out_Of_Bounds_Write k)"
  by (cases enc) (auto simp: scanner_defs and_then_Inl get_byte_def split: if_splits)

text \<open>
  Where the four scanner defects are, and where they are not: no scanner but the one
  of MULE_INTERNAL reads past the end of its buffer; the JOHAB scanner accepts any
  trailing byte after a legal lead byte; the errors of the EUC_TW scanner all carry the
  name EUC_KR; and the GB18030 scanner never takes a byte below 0x80 for a glyph of its
  own.
\<close>

lemma get_bytes_in_bounds:
  "start + count \<le> length buf \<Longrightarrow> \<exists>bs. get_bytes buf start count = Inr bs"
proof (induction count arbitrary: start)
  case 0
  show ?case by simp
next
  case (Suc count)
  then have "Suc start + count \<le> length buf" by simp
  from Suc.IH [OF this] obtain bs where "get_bytes buf (Suc start) count = Inr bs" by blast
  with Suc.prems show ?case
    by (simp add: get_byte_def and_then_simps)
qed

lemma throw_in_bounds:
  "start + count \<le> length buf \<Longrightarrow>
   throw_for_encoding_error n buf start count \<noteq> Inl (Out_Of_Bounds_Read k)"
  using get_bytes_in_bounds [of start count buf]
  by (auto simp: throw_for_encoding_error_def)

lemma next_seq_reads_in_bounds:
  assumes "enc \<noteq> MULE_INTERNAL"
  shows "next_seq enc buf (length buf) start \<noteq> Inl (Out_Of_Bounds_Read k)"
  using assms
  by (cases enc)
     (auto simp: scanner_defs and_then_Inl get_byte_def throw_in_bounds split: if_splits)

lemma johab_trailing_byte_unchecked:
  assumes "(0x84 \<le> b1 \<and> b1 \<le> 0xd3) \<or> (0xd8 \<le> b1 \<and> b1 \<le> 0xde) \<or> (0xe0 \<le> b1 \<and> b1 \<le> 0xf9)"
  shows "next_seq JOHAB (b1 # b2 # rest) (length (b1 # b2 # rest)) 0 = Inr (Some 2)"
proof -
  from assms have "(0x84 \<le> unat b1 \<and> unat b1 \<le> 0xd3) \<or> (0xd8 \<le> unat b1 \<and> unat b1 \<le> 0xde)
      \<or> (0xe0 \<le> unat b1 \<and> unat b1 \<le> 0xf9)"
    by (simp add: word_le_nat_alt)
  then show ?thesis
    by (auto simp: next_seq_def next_seq_JOHAB_def scan_simps)
qed

lemma get_bytes_not_argument_error [simp]:
  "get_bytes buf start count \<noteq> Inl (Argument_Error name at bs)"
  by (induction count arbitrary: start) (auto simp: get_byte_def and_then_def split: sum.splits)

lemma euc_tw_errors_name_euc_kr:
  "next_seq EUC_TW buf (length buf) start = Inl (Argument_Error name at bs) \<Longrightarrow> name = ''EUC_KR''"
  by (auto simp: next_seq_def next_seq_EUC_TW_def and_then_Inl get_byte_def
                 throw_for_encoding_error_def
           split: if_splits sum.splits)

lemma gb18030_ascii_never_single:
  assumes "start < length buf" "buf ! start < 0x80"
  shows "next_seq GB18030 buf (length buf) start \<noteq> Inr (Some (start + 1))"
proof -
  from assms(2) have "unat (buf ! start) < 128"
    by (simp add: word_less_nat_alt)
  with assms(1) show ?thesis
    by (auto simp: next_seq_def next_seq_GB18030_def and_then_Inr get_byte_def between_inc_def
             split: if_splits)
qed

section \<open>The scanners on concrete buffers\<close>

text \<open>
  C1. Claimed: under every encoding group a byte below 0x80 at \<open>start\<close> is a glyph of
  its own, so the scanner returns \<open>start + 1\<close> and raises nothing. The GB18030 scanner
  tests its first byte for the range 0x80 to 0xff where the others test for a byte
  below 0x80: on the one-byte buffer \<^verbatim>\<open>"a"\<close> it throws.
\<close>

theorem C1_gb18030_ascii_byte_raises:
  "next_seq GB18030 [0x61] 1 0 = Inl (Argument_Error ''GB18030'' 0 [0x61])"
  by (simp add: scanner_defs scan_simps)

text \<open>
  C2. Claimed: no scanner reads the buffer at an offset at or past \<open>buffer_len\<close>. The
  MULE_INTERNAL scanner, having checked that four bytes are there, reads the byte at
  \<open>start + 4\<close>: on a four-byte buffer that is the offset 4, one past its last byte.
\<close>

theorem C2_mule_internal_reads_past_end:
  "next_seq MULE_INTERNAL [0x9C, 0xF0, 0xA0, 0xA0] 4 0 = Inl (Out_Of_Bounds_Read 4)"
  by (simp add: scanner_defs scan_simps)

text \<open>
  C3. Claimed: a trailing byte outside the legal range makes the scanner fail, and the
  JOHAB scanner checks the byte at \<open>start + 1\<close>. It reads its \<^verbatim>\<open>second_byte\<close> at
  \<open>start\<close>: after the lead byte 0x84 the trailing byte 0x20, which is in neither legal
  range, is accepted as the end of a two-byte glyph.
\<close>

theorem C3_johab_accepts_illegal_trailing_byte:
  "next_seq JOHAB [0x84, 0x20] 2 0 = Inr (Some 2)"
  by (simp add: scanner_defs scan_simps)

text \<open>
  C4. Claimed: a decoding error names the encoding that was scanned. A sequence cut
  short and an illegal trailing byte under EUC_TW are both reported as EUC_KR.
\<close>

theorem C4_euc_tw_error_names_euc_kr:
  "next_seq EUC_TW [0xA1] 1 0 = Inl (Argument_Error ''EUC_KR'' 0 [0xA1])
   \<and> next_seq EUC_TW [0xA1, 0x20] 2 0 = Inl (Argument_Error ''EUC_KR'' 0 [0xA1, 0x20])"
  by code_simp

section \<open>The bounds of the row buffer\<close>

lemma put_in_bounds:
  "write_ptr p < length (p_row p) \<Longrightarrow>
   put c p = Inr (p\<lparr>p_row := (p_row p)[write_ptr p := c], write_ptr := write_ptr p + 1\<rparr>)"
  by (simp add: put_def)

lemma copy_glyph_in_bounds:
  "walk_inv (length line) p \<Longrightarrow>
   (case copy_glyph line n p of
      Inl (e, p') \<Rightarrow> (\<forall>k. e \<noteq> Out_Of_Bounds_Write k) \<and> write_ptr p' \<le> length line + 1
                     \<and> length (p_row p') = length line + 1
    | Inr p' \<Rightarrow> walk_inv (length line) p' \<and> read_ptr p' = read_ptr p + n)"
proof (induction n arbitrary: p)
  case 0
  then show ?case by simp
next
  case (Suc n)
  show ?case
  proof (cases "read_ptr p < length line")
    case False
    with Suc.prems show ?thesis
      by (simp add: next_char_def and_then_simps walk_inv_def)
  next
    case True
    let ?q = "p\<lparr>read_ptr := read_ptr p + 1, p_row := (p_row p)[write_ptr p := line ! read_ptr p],
                 write_ptr := write_ptr p + 1\<rparr>"
    from True Suc.prems have step:
      "copy_glyph line (Suc n) p = copy_glyph line n ?q"
      by (simp add: next_char_def and_then_simps put_def walk_inv_def)
    from True Suc.prems have "walk_inv (length line) ?q"
      by (simp add: walk_inv_def)
    from Suc.IH [OF this] show ?thesis
      unfolding step by (auto split: sum.splits)
  qed
qed

lemma next_seq_progress:
  assumes "next_seq enc buf (length buf) start = Inr r" "start < length buf"
  shows "\<exists>g. r = Some g \<and> start < g \<and> g \<le> length buf"
  using assms
  by (cases enc) (auto simp: scanner_defs and_then_Inr split: if_splits)

lemma single_byte_in_bounds:
  assumes "walk_inv (length line) p" "read_ptr p < length line"
  shows "case single_byte line p of
           Inl (e, p') \<Rightarrow> (\<forall>k. e \<noteq> Out_Of_Bounds_Write k) \<and> write_ptr p' \<le> length line + 1
                          \<and> length (p_row p') = length line + 1
         | Inr p' \<Rightarrow> walk_inv (length line) p' \<and> read_ptr p < read_ptr p'"
  using assms
  by (auto simp: single_byte_def next_char_def and_then_simps end_field_def escape_def put_def
                 walk_inv_def
           split: option.splits sum.splits if_splits)

lemma parse_glyph_in_bounds:
  assumes "walk_inv (length line) p" "read_ptr p < length line"
  shows "case parse_glyph enc line p of
           Inl (e, p') \<Rightarrow> (\<forall>k. e \<noteq> Out_Of_Bounds_Write k) \<and> write_ptr p' \<le> length line + 1
                          \<and> length (p_row p') = length line + 1
         | Inr p' \<Rightarrow> walk_inv (length line) p' \<and> read_ptr p < read_ptr p'"
proof (cases "next_seq enc line (length line) (read_ptr p)")
  case (Inl e)
  with assms(1) next_seq_no_write_fault [of enc line "length line" "read_ptr p"]
  show ?thesis
    by (auto simp: parse_glyph_def walk_inv_def)
next
  case (Inr r)
  from next_seq_progress [OF Inr assms(2)] obtain g where
    g: "r = Some g" "read_ptr p < g" "g \<le> length line" by blast
  show ?thesis
  proof (cases "g = read_ptr p + 1")
    case True
    with Inr g single_byte_in_bounds [OF assms] show ?thesis
      by (simp add: parse_glyph_def)
  next
    case False
    with Inr g have eq: "parse_glyph enc line p = copy_glyph line (g - read_ptr p) p"
      by (simp add: parse_glyph_def)
    from copy_glyph_in_bounds [OF assms(1), of "g - read_ptr p"] g show ?thesis
      unfolding eq by (auto split: sum.splits)
  qed
qed

lemma parse_loop_in_bounds:
  assumes "walk_inv (length line) p"
  shows "\<exists>r. parse_loop enc line p = Some r \<and>
           (case r of
              Inl (e, p') \<Rightarrow> (\<forall>k. e \<noteq> Out_Of_Bounds_Write k) \<and> write_ptr p' \<le> length line + 1
                             \<and> length (p_row p') = length line + 1
            | Inr p' \<Rightarrow> walk_inv (length line) p' \<and> read_ptr p' = length line)"
  using assms
proof (induction "length line - read_ptr p" arbitrary: p rule: less_induct)
  case less
  show ?case
  proof (cases "read_ptr p < length line")
    case False
    with less.prems show ?thesis
      by (subst parse_loop.simps) (simp add: walk_inv_def)
  next
    case True
    note step = parse_glyph_in_bounds [OF less.prems True, of enc]
    show ?thesis
    proof (cases "parse_glyph enc line p")
      case (Inl ep)
      with step True show ?thesis
        by (subst parse_loop.simps) (auto split: prod.splits)
    next
      case (Inr p')
      with step have p': "walk_inv (length line) p'" "read_ptr p < read_ptr p'"
        by simp_all
      with True have "length line - read_ptr p' < length line - read_ptr p"
        by simp
      from less.hyps [OF this p'(1)] Inr True show ?thesis
        by (subst parse_loop.simps) simp
    qed
  qed
qed

lemma parse_fields_in_bounds:
  "\<exists>r. parse_fields enc line row0 = Some r \<and>
       (case r of
          Inl (e, p) \<Rightarrow> (\<forall>k. e \<noteq> Out_Of_Bounds_Write k) \<and> write_ptr p \<le> length line + 1
                        \<and> length (p_row p) = length line + 1
        | Inr p \<Rightarrow> write_ptr p \<le> length line + 1 \<and> length (p_row p) = length line + 1)"
proof -
  let ?p0 = "\<lparr>read_ptr = 0, write_ptr = 0, field_begin = Some 0,
              p_row = resize row0 (length line + 1), p_fields = []\<rparr>"
  have "walk_inv (length line) ?p0"
    by (simp add: walk_inv_def resize_def)
  from parse_loop_in_bounds [OF this, of enc] obtain r where
    r: "parse_loop enc line ?p0 = Some r"
       "case r of
          Inl (e, p') \<Rightarrow> (\<forall>k. e \<noteq> Out_Of_Bounds_Write k) \<and> write_ptr p' \<le> length line + 1
                         \<and> length (p_row p') = length line + 1
        | Inr p' \<Rightarrow> walk_inv (length line) p' \<and> read_ptr p' = length line"
    by blast
  show ?thesis
  proof (cases r)
    case (Inl ep)
    with r show ?thesis
      by (simp add: parse_fields_def)
  next
    case (Inr p')
    with r show ?thesis
      by (auto simp: parse_fields_def end_field_def put_def walk_inv_def split: option.splits)
  qed
qed

text \<open>
  C8. For a line of length \<open>L\<close>, \<^verbatim>\<open>parse_line\<close> resizes the row buffer to \<open>L + 1\<close> bytes and
  then writes at most \<open>L + 1\<close> bytes into it, whatever the line and the encoding: the
  walk and the closing of the last field always return, with a row buffer of \<open>L + 1\<close>
  bytes and \<open>write_ptr\<close>, the count of the bytes written, at most \<open>L + 1\<close>, also in the
  state an exception leaves; and no write lands outside the buffer (the outcome is never
  \<open>Out_Of_Bounds_Write\<close>). \<^verbatim>\<open>parse_line\<close> itself always returns, never with a write out of
  bounds, and after a line of length \<open>L\<close> \<^verbatim>\<open>m_row\<close> has \<open>L + 1\<close> bytes.
\<close>

theorem C8_writes_stay_in_row_buffer:
  "(\<exists>r. parse_fields enc line row0 = Some r \<and>
        (case r of
           Inl (e, p) \<Rightarrow> (\<forall>k. e \<noteq> Out_Of_Bounds_Write k) \<and> write_ptr p \<le> length line + 1
                         \<and> length (p_row p) = length line + 1
         | Inr p \<Rightarrow> write_ptr p \<le> length line + 1 \<and> length (p_row p) = length line + 1)) \<and>
   (\<exists>r s'. parse_line s = Some (r, s') \<and> (\<forall>k. r \<noteq> Some (Out_Of_Bounds_Write k)) \<and>
        (\<not> m_finished s \<and> conn_lines s = Line line # rest \<longrightarrow>
           length (m_row s') = length line + 1))"
proof
  show "\<exists>r. parse_fields enc line row0 = Some r \<and>
        (case r of
           Inl (e, p) \<Rightarrow> (\<forall>k. e \<noteq> Out_Of_Bounds_Write k) \<and> write_ptr p \<le> length line + 1
                         \<and> length (p_row p) = length line + 1
         | Inr p \<Rightarrow> write_ptr p \<le> length line + 1 \<and> length (p_row p) = length line + 1)"
    by (rule parse_fields_in_bounds)
next
  show "\<exists>r s'. parse_line s = Some (r, s') \<and> (\<forall>k. r \<noteq> Some (Out_Of_Bounds_Write k)) \<and>
        (\<not> m_finished s \<and> conn_lines s = Line line # rest \<longrightarrow>
           length (m_row s') = length line + 1)"
  proof (cases "m_finished s")
    case True
    then show ?thesis by (simp add: parse_line_def)
  next
    case False
    obtain x s1 where g: "get_raw_line (s\<lparr>m_fields := []\<rparr>) = (x, s1)"
      by (cases "get_raw_line (s\<lparr>m_fields := []\<rparr>)")
    show ?thesis
    proof (cases x)
      case (Inl e)
      with False g have "parse_line s = Some (Some e, s1)"
        by (simp add: parse_line_def)
      moreover from False g Inl have "\<forall>k. e \<noteq> Out_Of_Bounds_Write k"
        by (auto simp: get_raw_line_def read_copy_line_def
                 split: list.splits copy_event.splits)
      moreover from False g Inl have "conn_lines s \<noteq> Line line # rest"
        by (auto simp: get_raw_line_def read_copy_line_def
                 split: list.splits copy_event.splits)
      ultimately show ?thesis by simp
    next
      case (Inr l)
      let ?s2 = "if l = None then s1\<lparr>m_finished := True\<rparr> else s1"
      let ?l = "case l of None \<Rightarrow> [] | Some b \<Rightarrow> b"
      from parse_fields_in_bounds [of "m_glyph_scanner ?s2" ?l "m_row ?s2"]
      obtain r where r: "parse_fields (m_glyph_scanner ?s2) ?l (m_row ?s2) = Some r"
        "case r of
           Inl (e, p) \<Rightarrow> (\<forall>k. e \<noteq> Out_Of_Bounds_Write k) \<and> write_ptr p \<le> length ?l + 1
                         \<and> length (p_row p) = length ?l + 1
         | Inr p \<Rightarrow> write_ptr p \<le> length ?l + 1 \<and> length (p_row p) = length ?l + 1"
        by blast
      from False g Inr have l: "conn_lines s = Line line # rest \<Longrightarrow> l = Some line"
        by (auto simp: get_raw_line_def read_copy_line_def
                 split: list.splits copy_event.splits)
      from False g Inr r l show ?thesis
        by (cases r) (auto simp: parse_line_def Let_def split: prod.splits)
    qed
  qed
qed

theorem C8_writes_stay_in_row_buffer_witness:
  "\<not> m_finished (new_stream UTF8 [Line [0x61, 0x5C]]) \<and>
   conn_lines (new_stream UTF8 [Line [0x61, 0x5C]]) = Line [0x61, 0x5C] # [] \<and>
   (\<exists>r s'. parse_line (new_stream UTF8 [Line [0x61, 0x5C]]) = Some (r, s') \<and>
      length (m_row s') = 3)"
  using C8_writes_stay_in_row_buffer
          [of UTF8 "[0x61, 0x5C]" "[]" "new_stream UTF8 [Line [0x61, 0x5C]]" "[]"]
  by (auto simp: new_stream_def)


section \<open>The finished flag\<close>

lemma parse_line_total: "\<exists>r s'. parse_line s = Some (r, s')"
proof (cases "m_finished s")
  case True
  then show ?thesis by (simp add: parse_line_def)
next
  case False
  obtain x s1 where g: "get_raw_line (s\<lparr>m_fields := []\<rparr>) = (x, s1)"
    by (cases "get_raw_line (s\<lparr>m_fields := []\<rparr>)")
  show ?thesis
  proof (cases x)
    case (Inl e)
    with False g show ?thesis by (simp add: parse_line_def)
  next
    case (Inr line)
    let ?s2 = "if line = None then s1\<lparr>m_finished := True\<rparr> else s1"
    let ?l = "case line of None \<Rightarrow> [] | Some l \<Rightarrow> l"
    from parse_fields_in_bounds [of "m_glyph_scanner ?s2" ?l "m_row ?s2"]
    obtain r where "parse_fields (m_glyph_scanner ?s2) ?l (m_row ?s2) = Some r" by blast
    with False g Inr show ?thesis
      by (cases r) (auto simp: parse_line_def Let_def split: prod.splits)
  qed
qed

lemma exec_total: "\<exists>r s'. exec op s = Some (r, s')"
proof (cases op)
  case Read_Row
  from parse_line_total [of s] obtain r s' where "parse_line s = Some (r, s')" by blast
  with Read_Row show ?thesis
    by (auto simp: exec_def read_row_def split: option.splits)
next
  case Close
  then show ?thesis by (simp add: exec_def)
next
  case Complete
  then show ?thesis by (auto simp: exec_def split: prod.splits option.splits)
qed

lemma run_total: "\<exists>rs s'. run ops s = Some (rs, s')"
proof (induction ops arbitrary: s)
  case Nil
  show ?case by simp
next
  case (Cons op ops)
  from exec_total [of op s] obtain r s' where e: "exec op s = Some (r, s')" by blast
  from Cons.IH [of s'] obtain rs s'' where "run ops s' = Some (rs, s'')" by blast
  with e show ?case by simp
qed

lemma exec_finished: "m_finished s \<Longrightarrow> exec op s = Some (after_end op, s)"
  by (cases op)
     (simp_all add: exec_def after_end_def read_row_def parse_line_def close_def complete_def)

lemma run_finished: "m_finished s \<Longrightarrow> run ops s = Some (map after_end ops, s)"
  by (induction ops) (simp_all add: exec_finished)

lemma run_append:
  "run ops1 s = Some (rs1, s1) \<Longrightarrow>
   run (ops1 @ ops2) s = (case run ops2 s1 of None \<Rightarrow> None | Some (rs2, s2) \<Rightarrow> Some (rs1 @ rs2, s2))"
proof (induction ops1 arbitrary: s rs1)
  case Nil
  then show ?case by (auto split: option.splits)
next
  case (Cons op ops1)
  from Cons.prems obtain r s' rs' where
    e: "exec op s = Some (r, s')" and r: "run ops1 s' = Some (rs', s1)" and rs: "rs1 = r # rs'"
    by (auto split: option.splits prod.splits)
  from Cons.IH [OF r] e rs show ?case
    by (auto split: option.splits)
qed

text \<open>
  C9. \<^verbatim>\<open>m_finished\<close> is terminal. Every sequence of operations on a stream returns; and
  once a sequence has left the stream finished, whatever operations follow leave the
  whole state as it is (so \<^verbatim>\<open>m_finished\<close> stays true, and the line source is not asked
  again: \<open>conn_lines\<close> and \<open>conn_reads\<close> are part of the state), each \<^verbatim>\<open>read_row\<close> among
  them returning the end of the data.
\<close>

theorem C9_finished_is_terminal:
  "(\<exists>rs s'. run ops s = Some (rs, s')) \<and>
   (\<forall>rs1 s1 ops2. run ops s = Some (rs1, s1) \<and> m_finished s1 \<longrightarrow>
      run (ops @ ops2) s = Some (rs1 @ map after_end ops2, s1))"
proof (intro conjI allI impI)
  show "\<exists>rs s'. run ops s = Some (rs, s')" by (rule run_total)
next
  fix rs1 s1 ops2
  assume a: "run ops s = Some (rs1, s1) \<and> m_finished s1"
  then have "run ops2 s1 = Some (map after_end ops2, s1)"
    by (simp add: run_finished)
  with run_append [of ops s rs1 s1 ops2] a
  show "run (ops @ ops2) s = Some (rs1 @ map after_end ops2, s1)"
    by simp
qed

theorem C9_finished_is_terminal_witness:
  "run [Read_Row, Read_Row] (new_stream UTF8 [Line [0x61]])
     = Some ([Row [Some (0, 1)], End_Of_Data],
             \<lparr>m_glyph_scanner = UTF8, m_finished = True, m_row = [0], m_fields = [Some (0, 0)],
              conn_lines = [], conn_reads = 2, registered = False, pending_errors = []\<rparr>) \<and>
   run ([Read_Row, Read_Row] @ [Read_Row, Complete, Close, Read_Row])
       (new_stream UTF8 [Line [0x61]])
     = Some ([Row [Some (0, 1)], End_Of_Data] @ [End_Of_Data, Done, Done, End_Of_Data],
             \<lparr>m_glyph_scanner = UTF8, m_finished = True, m_row = [0], m_fields = [Some (0, 0)],
              conn_lines = [], conn_reads = 2, registered = False, pending_errors = []\<rparr>)"
proof -
  have r: "run [Read_Row, Read_Row] (new_stream UTF8 [Line [0x61]])
     = Some ([Row [Some (0, 1)], End_Of_Data],
             \<lparr>m_glyph_scanner = UTF8, m_finished = True, m_row = [0], m_fields = [Some (0, 0)],
              conn_lines = [], conn_reads = 2, registered = False, pending_errors = []\<rparr>)"
    by code_simp
  from C9_finished_is_terminal [of "[Read_Row, Read_Row]" "new_stream UTF8 [Line [0x61]]"] r
  show ?thesis
    by (simp add: after_end_def)
qed

section \<open>The walk over a line read byte by byte\<close>

lemma walk_tab:
  "walk (0x09 # rest) d c out =
     walk rest (d @ [c]) (Some []) (case c of None \<Rightarrow> out | Some v \<Rightarrow> out @ [0])"
  by simp

lemma walk_last: "walk [0x5C] d c out = Inl (Failure ''Row ends in backslash'')"
  by simp

lemma walk_null:
  "walk (0x5C # 0x4E # rest) d c out =
     (if c \<noteq> Some [] then Inl (Failure ''Null sequence found in nonempty field'')
      else walk rest d None out)"
  by simp

lemma walk_esc:
  "c' \<noteq> 0x4E \<Longrightarrow>
   walk (0x5C # c' # rest) d c out =
     walk rest d (map_option (\<lambda>v. v @ [control_char c']) c) (out @ [control_char c'])"
  by simp

lemma walk_byte:
  "b \<noteq> 0x09 \<Longrightarrow> b \<noteq> 0x5C \<Longrightarrow>
   walk (b # rest) d c out = walk rest d (map_option (\<lambda>v. v @ [b]) c) (out @ [b])"
  by simp

lemmas walk_cases = walk_tab walk_last walk_null walk_esc walk_byte

declare walk.simps(2) [simp del]

lemma next_seq_ascii:
  assumes "enc \<noteq> GB18030" "start < length buf" "buf ! start < 0x80"
  shows "next_seq enc buf (length buf) start = Inr (Some (start + 1))"
proof -
  from assms(3) have "unat (buf ! start) < 128"
    by (simp add: word_less_nat_alt)
  with assms(1,2) show ?thesis
    by (cases enc) (simp_all add: scanner_defs scan_simps)
qed

lemma next_seq_bytewise:
  assumes "scans_bytewise enc buf" "start < length buf"
  shows "next_seq enc buf (length buf) start = Inr (Some (start + 1))"
proof (cases "enc = MONOBYTE")
  case True
  with assms(2) show ?thesis
    by (simp add: next_seq_def next_seq_MONOBYTE_def)
next
  case False
  with assms have "enc \<noteq> GB18030" "buf ! start < 0x80"
    by (simp_all add: scans_bytewise_def list_all_length)
  from next_seq_ascii [OF this(1) assms(2) this(2)] show ?thesis .
qed

lemma scans_bytewise_ascii:
  "enc \<noteq> GB18030 \<Longrightarrow> list_all (\<lambda>b. b < 0x80) line \<Longrightarrow> scans_bytewise enc line"
  by (simp add: scans_bytewise_def)

lemma view_bytes_update:
  assumes "\<And>off len. v = Some (off, len) \<Longrightarrow> off + len \<le> w"
  shows "view_bytes (buf[w := c]) v = view_bytes buf v"
proof (cases v)
  case None
  then show ?thesis by (simp add: view_bytes_def)
next
  case (Some ol)
  obtain off len where ol: "ol = (off, len)" by (cases ol)
  with Some assms have le: "off + len \<le> w" by simp
  then have "drop off (buf[w := c]) = (drop off buf)[w - off := c]"
    by (simp add: drop_update_swap)
  moreover from le have "take len ((drop off buf)[w - off := c]) = take len (drop off buf)"
    by (simp add: take_update_cancel)
  ultimately show ?thesis using Some ol by (simp add: view_bytes_def)
qed

lemma take_drop_append_update:
  assumes "fb \<le> w" "w < length buf"
  shows "take (Suc w - fb) (drop fb (buf[w := c])) = take (w - fb) (drop fb buf) @ [c]"
proof -
  let ?ys = "drop fb buf"
  from assms have n: "w - fb < length ?ys" by simp
  from assms have "drop fb (buf[w := c]) = ?ys[w - fb := c]"
    by (simp add: drop_update_swap)
  moreover from n have "take (Suc (w - fb)) (?ys[w - fb := c]) = take (w - fb) ?ys @ [c]"
    by (simp add: take_Suc_conv_app_nth take_update_cancel)
  moreover from assms have "Suc w - fb = Suc (w - fb)" by simp
  ultimately show ?thesis by simp
qed

lemma read_ptr_update_values [simp]:
  "cur_value (p\<lparr>read_ptr := r\<rparr>) = cur_value p"
  "done_values (p\<lparr>read_ptr := r\<rparr>) = done_values p"
  "views_inv (p\<lparr>read_ptr := r\<rparr>) = views_inv p"
  "written (p\<lparr>read_ptr := r\<rparr>) = written p"
  by (simp_all add: cur_value_def done_values_def views_inv_def written_def split: option.splits)

lemma put_values:
  assumes "views_inv p" "write_ptr p < length (p_row p)"
  shows "\<exists>p'. put c p = Inr p' \<and> done_values p' = done_values p
          \<and> cur_value p' = map_option (\<lambda>v. v @ [c]) (cur_value p)
          \<and> views_inv p' \<and> write_ptr p' = write_ptr p + 1 \<and> read_ptr p' = read_ptr p
          \<and> length (p_row p') = length (p_row p) \<and> written p' = written p @ [c]"
proof -
  let ?p' = "p\<lparr>p_row := (p_row p)[write_ptr p := c], write_ptr := write_ptr p + 1\<rparr>"
  from assms(2) have put: "put c p = Inr ?p'" by (simp add: put_def)
  from assms(1) have "done_values ?p' = done_values p"
    by (auto simp: done_values_def views_inv_def intro!: view_bytes_update)
  moreover from assms have "cur_value ?p' = map_option (\<lambda>v. v @ [c]) (cur_value p)"
    by (auto simp: cur_value_def views_inv_def take_drop_append_update split: option.splits)
  moreover from assms(1) have "views_inv ?p'"
    by (auto simp: views_inv_def intro: le_SucI)
  moreover from assms(2) have "written ?p' = written p @ [c]"
    by (simp add: written_def take_Suc_conv_app_nth)
  ultimately show ?thesis using put by simp
qed

lemma cur_value_empty:
  assumes "views_inv p" "write_ptr p < length (p_row p)"
  shows "cur_value p = Some [] \<longleftrightarrow> field_begin p = Some (write_ptr p)"
  using assms
  by (auto simp: cur_value_def views_inv_def split: option.splits)

lemma single_byte_tab:
  assumes "walk_inv (length line) p" "views_inv p" "read_ptr p < length line"
    and "line ! read_ptr p = 0x09"
  shows "\<exists>p'. single_byte line p = Inr p' \<and> walk_inv (length line) p' \<and> views_inv p'
           \<and> read_ptr p' = read_ptr p + 1
           \<and> done_values p' = done_values p @ [cur_value p] \<and> cur_value p' = Some []
           \<and> written p' = (case cur_value p of None \<Rightarrow> written p | Some v \<Rightarrow> written p @ [0])"
proof (cases "field_begin p")
  case None
  let ?p' = "p\<lparr>read_ptr := read_ptr p + 1, p_fields := p_fields p @ [None],
               field_begin := Some (write_ptr p)\<rparr>"
  from assms None have "single_byte line p = Inr ?p'"
    by (simp add: single_byte_def next_char_def and_then_simps end_field_def)
  moreover from assms None have "walk_inv (length line) ?p'" "views_inv ?p'"
    "done_values ?p' = done_values p @ [cur_value p]" "cur_value ?p' = Some []"
    "written ?p' = (case cur_value p of None \<Rightarrow> written p | Some v \<Rightarrow> written p @ [0])"
    by (simp_all add: walk_inv_def views_inv_def done_values_def cur_value_def view_bytes_def
                      written_def)
  ultimately show ?thesis by simp
next
  case (Some fb)
  let ?q = "p\<lparr>read_ptr := read_ptr p + 1, p_fields := p_fields p @ [Some (fb, write_ptr p - fb)]\<rparr>"
  from assms Some have q: "views_inv ?q" "write_ptr ?q < length (p_row ?q)"
    by (simp_all add: views_inv_def walk_inv_def)
  from put_values [OF q, of 0] obtain q' where q':
    "put 0 ?q = Inr q'" "done_values q' = done_values ?q"
    "views_inv q'" "write_ptr q' = write_ptr ?q + 1" "read_ptr q' = read_ptr ?q"
    "length (p_row q') = length (p_row ?q)" "written q' = written ?q @ [0]"
    by blast
  let ?p' = "q'\<lparr>field_begin := Some (write_ptr q')\<rparr>"
  from assms Some q'(1) have "single_byte line p = Inr ?p'"
    by (simp add: single_byte_def next_char_def and_then_simps end_field_def)
  moreover from assms q' have "walk_inv (length line) ?p'"
    by (simp add: walk_inv_def)
  moreover from q'(3) have "views_inv ?p'"
    by (simp add: views_inv_def)
  moreover from q'(2) Some have "done_values ?p' = done_values p @ [cur_value p]"
    by (simp add: done_values_def cur_value_def view_bytes_def)
  moreover have "cur_value ?p' = Some []"
    by (simp add: cur_value_def)
  moreover from q'(7) Some
  have "written ?p' = (case cur_value p of None \<Rightarrow> written p | Some v \<Rightarrow> written p @ [0])"
    by (simp add: written_def cur_value_def)
  ultimately show ?thesis using q'(5) by simp
qed

lemma single_byte_plain:
  assumes "walk_inv (length line) p" "views_inv p" "read_ptr p < length line"
    and "line ! read_ptr p \<noteq> 0x09" "line ! read_ptr p \<noteq> 0x5C"
  shows "\<exists>p'. single_byte line p = Inr p' \<and> walk_inv (length line) p' \<and> views_inv p'
           \<and> read_ptr p' = read_ptr p + 1
           \<and> done_values p' = done_values p
           \<and> cur_value p' = map_option (\<lambda>v. v @ [line ! read_ptr p]) (cur_value p)
           \<and> written p' = written p @ [line ! read_ptr p]"
proof -
  let ?q = "p\<lparr>read_ptr := read_ptr p + 1\<rparr>"
  from assms have q: "views_inv ?q" "write_ptr ?q < length (p_row ?q)"
    by (simp_all add: walk_inv_def)
  from put_values [OF q, of "line ! read_ptr p"] obtain p' where p':
    "put (line ! read_ptr p) ?q = Inr p'" "done_values p' = done_values ?q"
    "cur_value p' = map_option (\<lambda>v. v @ [line ! read_ptr p]) (cur_value ?q)"
    "views_inv p'" "write_ptr p' = write_ptr ?q + 1" "read_ptr p' = read_ptr ?q"
    "length (p_row p') = length (p_row ?q)" "written p' = written ?q @ [line ! read_ptr p]"
    by blast
  from assms p'(1) have "single_byte line p = Inr p'"
    by (simp add: single_byte_def next_char_def and_then_simps)
  moreover from assms p' have "walk_inv (length line) p'"
    by (simp add: walk_inv_def)
  moreover from p'(2,3,8) have "done_values p' = done_values p"
    "cur_value p' = map_option (\<lambda>v. v @ [line ! read_ptr p]) (cur_value p)"
    "written p' = written p @ [line ! read_ptr p]"
    by simp_all
  ultimately show ?thesis using p'(4,6) by simp
qed

lemma single_byte_backslash_end:
  assumes "read_ptr p < length line" "line ! read_ptr p = 0x5C" "read_ptr p + 1 = length line"
  shows "\<exists>p'. single_byte line p = Inl (Failure ''Row ends in backslash'', p')"
  using assms by (simp add: single_byte_def next_char_def and_then_simps)

lemma single_byte_null:
  assumes "walk_inv (length line) p" "views_inv p" "read_ptr p + 1 < length line"
    and "line ! read_ptr p = 0x5C" "line ! (read_ptr p + 1) = 0x4E"
  shows "if cur_value p \<noteq> Some []
         then \<exists>p'. single_byte line p = Inl (Failure ''Null sequence found in nonempty field'', p')
         else \<exists>p'. single_byte line p = Inr p' \<and> walk_inv (length line) p' \<and> views_inv p'
           \<and> read_ptr p' = read_ptr p + 2
           \<and> done_values p' = done_values p \<and> cur_value p' = None \<and> written p' = written p"
proof -
  from assms(1,2) have e: "cur_value p = Some [] \<longleftrightarrow> field_begin p = Some (write_ptr p)"
    by (intro cur_value_empty) (simp_all add: walk_inv_def)
  let ?p' = "p\<lparr>read_ptr := read_ptr p + 2, field_begin := None\<rparr>"
  from assms have "field_begin p = Some (write_ptr p) \<Longrightarrow> single_byte line p = Inr ?p'"
    by (simp add: single_byte_def next_char_def and_then_simps escape_def)
  moreover from assms have "walk_inv (length line) ?p'" "views_inv ?p'"
    "done_values ?p' = done_values p" "cur_value ?p' = None" "written ?p' = written p"
    by (simp_all add: walk_inv_def views_inv_def done_values_def cur_value_def written_def)
  moreover from assms have "field_begin p \<noteq> Some (write_ptr p) \<Longrightarrow>
      \<exists>p'. single_byte line p = Inl (Failure ''Null sequence found in nonempty field'', p')"
    by (auto simp: single_byte_def next_char_def and_then_simps escape_def)
  ultimately show ?thesis using e by auto
qed

lemma escape_not_null:
  "c \<noteq> 0x4E \<Longrightarrow> escape c p = put (control_char c) p"
  by (simp add: escape_def control_char_def)

lemma single_byte_escape:
  assumes "walk_inv (length line) p" "views_inv p" "read_ptr p + 1 < length line"
    and "line ! read_ptr p = 0x5C" "line ! (read_ptr p + 1) \<noteq> 0x4E"
  shows "\<exists>p'. single_byte line p = Inr p' \<and> walk_inv (length line) p' \<and> views_inv p'
           \<and> read_ptr p' = read_ptr p + 2
           \<and> done_values p' = done_values p
           \<and> cur_value p' = map_option (\<lambda>v. v @ [control_char (line ! (read_ptr p + 1))]) (cur_value p)
           \<and> written p' = written p @ [control_char (line ! (read_ptr p + 1))]"
proof -
  let ?c = "control_char (line ! (read_ptr p + 1))"
  let ?q = "p\<lparr>read_ptr := read_ptr p + 2\<rparr>"
  from assms have q: "views_inv ?q" "write_ptr ?q < length (p_row ?q)"
    by (simp_all add: walk_inv_def)
  from put_values [OF q, of ?c] obtain p' where p':
    "put ?c ?q = Inr p'" "done_values p' = done_values ?q"
    "cur_value p' = map_option (\<lambda>v. v @ [?c]) (cur_value ?q)"
    "views_inv p'" "write_ptr p' = write_ptr ?q + 1" "read_ptr p' = read_ptr ?q"
    "length (p_row p') = length (p_row ?q)" "written p' = written ?q @ [?c]"
    by blast
  from assms p'(1) have "single_byte line p = Inr p'"
    by (simp add: single_byte_def next_char_def and_then_simps escape_not_null)
  moreover from assms p' have "walk_inv (length line) p'"
    by (simp add: walk_inv_def)
  moreover from p'(2,3,8) have "done_values p' = done_values p"
    "cur_value p' = map_option (\<lambda>v. v @ [?c]) (cur_value p)" "written p' = written p @ [?c]"
    by simp_all
  ultimately show ?thesis using p'(4,6) by simp
qed

lemma parse_glyph_bytewise:
  assumes "scans_bytewise enc line" "read_ptr p < length line"
  shows "parse_glyph enc line p = single_byte line p"
  using next_seq_bytewise [OF assms] by (simp add: parse_glyph_def)

lemma parse_loop_walk:
  assumes "scans_bytewise enc line" "walk_inv (length line) p" "views_inv p"
  shows "case walk (drop (read_ptr p) line) (done_values p) (cur_value p) (written p) of
           Inl e \<Rightarrow> (\<exists>p'. parse_loop enc line p = Some (Inl (e, p')))
         | Inr (d, c, out) \<Rightarrow>
             (\<exists>p'. parse_loop enc line p = Some (Inr p') \<and> walk_inv (length line) p'
                \<and> views_inv p' \<and> read_ptr p' = length line
                \<and> done_values p' = d \<and> cur_value p' = c \<and> written p' = out)"
  using assms(2,3)
proof (induction "length line - read_ptr p" arbitrary: p rule: less_induct)
  case less
  note inv = less.prems
  show ?case
  proof (cases "read_ptr p < length line")
    case False
    with inv have "read_ptr p = length line" by (simp add: walk_inv_def)
    with inv show ?thesis
      by (subst parse_loop.simps) simp
  next
    case True
    let ?c = "line ! read_ptr p"
    let ?rest = "drop (Suc (read_ptr p)) line"
    from True have drop: "drop (read_ptr p) line = ?c # ?rest"
      by (simp add: Cons_nth_drop_Suc)
    from True have loop: "parse_loop enc line p =
        (case single_byte line p of Inl ep \<Rightarrow> Some (Inl ep) | Inr p' \<Rightarrow> parse_loop enc line p')"
      by (subst parse_loop.simps) (simp add: parse_glyph_bytewise [OF assms(1)])
    have IH: "case walk (drop (read_ptr p') line) (done_values p') (cur_value p') (written p') of
           Inl e \<Rightarrow> (\<exists>q. parse_loop enc line p' = Some (Inl (e, q)))
         | Inr (d, c, out) \<Rightarrow>
             (\<exists>q. parse_loop enc line p' = Some (Inr q) \<and> walk_inv (length line) q
                \<and> views_inv q \<and> read_ptr q = length line
                \<and> done_values q = d \<and> cur_value q = c \<and> written q = out)"
      if "walk_inv (length line) p'" "views_inv p'" "read_ptr p < read_ptr p'" for p'
    proof -
      from that(3) True have "length line - read_ptr p' < length line - read_ptr p" by simp
      from less.hyps [OF this that(1,2)] show ?thesis .
    qed
    consider (tab) "?c = 0x09"
      | (plain) "?c \<noteq> 0x09" "?c \<noteq> 0x5C"
      | (last) "?c = 0x5C" "read_ptr p + 1 = length line"
      | (null) "?c = 0x5C" "read_ptr p + 1 < length line" "line ! (read_ptr p + 1) = 0x4E"
      | (esc) "?c = 0x5C" "read_ptr p + 1 < length line" "line ! (read_ptr p + 1) \<noteq> 0x4E"
      using True by fastforce
    then show ?thesis
    proof cases
      case tab
      from single_byte_tab [OF inv True tab] obtain p' where p':
        "single_byte line p = Inr p'" "walk_inv (length line) p'" "views_inv p'"
        "read_ptr p' = read_ptr p + 1"
        "done_values p' = done_values p @ [cur_value p]" "cur_value p' = Some []"
        "written p' = (case cur_value p of None \<Rightarrow> written p | Some v \<Rightarrow> written p @ [0])"
        by blast
      from IH [OF p'(2,3)] p' tab show ?thesis
        by (auto simp: loop drop walk_cases split: sum.splits prod.splits)
    next
      case plain
      from single_byte_plain [OF inv True plain] obtain p' where p':
        "single_byte line p = Inr p'" "walk_inv (length line) p'" "views_inv p'"
        "read_ptr p' = read_ptr p + 1" "done_values p' = done_values p"
        "cur_value p' = map_option (\<lambda>v. v @ [?c]) (cur_value p)"
        "written p' = written p @ [?c]"
        by blast
      from IH [OF p'(2,3)] p' plain show ?thesis
        by (auto simp: loop drop walk_cases split: sum.splits prod.splits)
    next
      case last
      from single_byte_backslash_end [OF True last] obtain p' where
        "single_byte line p = Inl (Failure ''Row ends in backslash'', p')" by blast
      with last show ?thesis
        by (auto simp: loop drop walk_cases split: sum.splits prod.splits)
    next
      case null
      from null(2,3) have drop2: "?rest = 0x4E # drop (Suc (Suc (read_ptr p))) line"
        by (simp add: Cons_nth_drop_Suc [symmetric])
      show ?thesis
      proof (cases "cur_value p = Some []")
        case False
        with single_byte_null [OF inv null(2,1,3)] obtain p' where
          "single_byte line p = Inl (Failure ''Null sequence found in nonempty field'', p')"
          by auto
        with null False show ?thesis
          by (auto simp: loop drop drop2 walk_cases split: sum.splits prod.splits)
      next
        case empty: True
        with single_byte_null [OF inv null(2,1,3)] obtain p' where p':
          "single_byte line p = Inr p'" "walk_inv (length line) p'" "views_inv p'"
          "read_ptr p' = read_ptr p + 2" "done_values p' = done_values p" "cur_value p' = None"
          "written p' = written p"
          by auto
        from IH [OF p'(2,3)] p' null empty show ?thesis
          by (auto simp: loop drop drop2 walk_cases split: sum.splits prod.splits)
      qed
    next
      case esc
      let ?c' = "line ! (read_ptr p + 1)"
      from esc(2) have drop2: "?rest = ?c' # drop (Suc (Suc (read_ptr p))) line"
        by (simp add: Cons_nth_drop_Suc [symmetric])
      from single_byte_escape [OF inv esc(2,1,3)] obtain p' where p':
        "single_byte line p = Inr p'" "walk_inv (length line) p'" "views_inv p'"
        "read_ptr p' = read_ptr p + 2" "done_values p' = done_values p"
        "cur_value p' = map_option (\<lambda>v. v @ [control_char ?c']) (cur_value p)"
        "written p' = written p @ [control_char ?c']"
        by blast
      from IH [OF p'(2,3)] p' esc show ?thesis
        by (auto simp: loop drop drop2 walk_cases split: sum.splits prod.splits)
    qed
  qed
qed

lemma end_field_values:
  assumes "walk_inv (length line) p" "views_inv p"
  shows "\<exists>p'. end_field p = Inr p' \<and> done_values p' = done_values p @ [cur_value p]
           \<and> written p' = (case cur_value p of None \<Rightarrow> written p | Some v \<Rightarrow> written p @ [0])"
proof (cases "field_begin p")
  case None
  then show ?thesis
    by (simp add: end_field_def done_values_def cur_value_def view_bytes_def written_def)
next
  case (Some fb)
  let ?q = "p\<lparr>p_fields := p_fields p @ [Some (fb, write_ptr p - fb)]\<rparr>"
  from assms Some have q: "views_inv ?q" "write_ptr ?q < length (p_row ?q)"
    by (simp_all add: views_inv_def walk_inv_def)
  from put_values [OF q, of 0] obtain q' where q':
    "put 0 ?q = Inr q'" "done_values q' = done_values ?q" "written q' = written ?q @ [0]"
    by blast
  from Some q' show ?thesis
    by (simp add: end_field_def done_values_def cur_value_def view_bytes_def written_def)
qed

lemma parse_fields_bytewise:
  assumes "scans_bytewise enc line"
  shows "case decode line of
           Inl e \<Rightarrow> (\<exists>p. parse_fields enc line row0 = Some (Inl (e, p)))
         | Inr (vs, out) \<Rightarrow>
             (\<exists>p. parse_fields enc line row0 = Some (Inr p) \<and> done_values p = vs
                \<and> written p = out)"
proof -
  let ?p0 = "\<lparr>read_ptr = 0, write_ptr = 0, field_begin = Some 0,
              p_row = resize row0 (length line + 1), p_fields = []\<rparr>"
  have inv: "walk_inv (length line) ?p0" "views_inv ?p0"
    by (simp_all add: walk_inv_def views_inv_def resize_def)
  have start: "drop (read_ptr ?p0) line = line" "done_values ?p0 = []"
    "cur_value ?p0 = Some []" "written ?p0 = []"
    by (simp_all add: done_values_def cur_value_def written_def)
  note loop = parse_loop_walk [OF assms inv, unfolded start]
  show ?thesis
  proof (cases "walk line [] (Some []) []")
    case (Inl e)
    with loop show ?thesis
      by (auto simp: decode_def parse_fields_def)
  next
    case (Inr r)
    obtain d c out where r: "r = (d, c, out)" by (cases r)
    with loop Inr obtain p' where p':
      "parse_loop enc line ?p0 = Some (Inr p')" "walk_inv (length line) p'" "views_inv p'"
      "done_values p' = d" "cur_value p' = c" "written p' = out"
      by auto
    from end_field_values [OF p'(2,3)] p'(4,5,6) obtain p where
      "end_field p' = Inr p" "done_values p = d @ [c]"
      "written p = (case c of None \<Rightarrow> out | Some v \<Rightarrow> out @ [0])"
      by auto
    with Inr r p'(1) show ?thesis
      by (simp add: decode_def parse_fields_def)
  qed
qed

lemma read_row_bytewise:
  assumes "\<not> m_finished s" "conn_lines s = Line line # rest"
    and "scans_bytewise (m_glyph_scanner s) line"
  shows "case decode line of
           Inl e \<Rightarrow> (\<exists>s'. read_row s = Some (Inl e, s'))
         | Inr (vs, out) \<Rightarrow>
             (\<exists>s'. read_row s = Some (Inr (Some (m_fields s')), s') \<and> field_values s' = vs
                \<and> take (length out) (m_row s') = out
                \<and> \<not> m_finished s' \<and> conn_lines s' = rest)"
proof -
  let ?s1 = "s\<lparr>m_fields := [], conn_lines := rest, conn_reads := conn_reads s + 1\<rparr>"
  from assms(1,2) have raw: "get_raw_line (s\<lparr>m_fields := []\<rparr>) = (Inr (Some line), ?s1)"
    by (simp add: get_raw_line_def read_copy_line_def)
  note pf = parse_fields_bytewise [OF assms(3), of "m_row s"]
  show ?thesis
  proof (cases "decode line")
    case (Inl e)
    with pf obtain p where "parse_fields (m_glyph_scanner s) line (m_row s) = Some (Inl (e, p))"
      by auto
    with Inl assms(1) raw show ?thesis
      by (simp add: read_row_def parse_line_def)
  next
    case (Inr r)
    obtain vs out where r: "r = (vs, out)" by (cases r)
    with pf Inr obtain p where p:
      "parse_fields (m_glyph_scanner s) line (m_row s) = Some (Inr p)"
      "done_values p = vs" "written p = out"
      by auto
    let ?s' = "?s1\<lparr>m_row := p_row p, m_fields := p_fields p\<rparr>"
    from assms(1) raw p(1) have "read_row s = Some (Inr (Some (m_fields ?s')), ?s')"
      by (simp add: read_row_def parse_line_def)
    moreover from p(2) have "field_values ?s' = vs"
      by (simp add: field_values_def done_values_def)
    moreover from p(3) have "take (length out) (m_row ?s') = out"
      by (auto simp: written_def min_def)
    moreover from assms(1) have "\<not> m_finished ?s'" "conn_lines ?s' = rest"
      by simp_all
    ultimately show ?thesis using Inr r by auto
  qed
qed

lemma split_runs_nonempty [simp]: "split_runs l \<noteq> []"
  by (induction l rule: split_runs.induct) auto

lemma walk_runs:
  "well_escaped l \<Longrightarrow>
   \<exists>d' c' out'. walk l d c out = Inr (d', c', out') \<and>
      d' @ [c'] = d @ (map_option (\<lambda>v. v @ unescape (hd (split_runs l))) c
                       # map (\<lambda>r. Some (unescape r)) (tl (split_runs l)))"
proof (induction l arbitrary: d c out rule: well_escaped.induct)
  case 1
  show ?case by (simp add: option.map_ident)
next
  case (2 b)
  then show ?case
    by (cases "b = 0x09") (simp_all add: walk_cases option.map_ident)
next
  case (3 b b' rest)
  consider (tab) "b = 0x09" | (esc) "b = 0x5C" | (byte) "b \<noteq> 0x09" "b \<noteq> 0x5C"
    by fastforce
  then show ?case
  proof cases
    case tab
    with "3.prems" have w: "well_escaped (b' # rest)" by simp
    from tab have ne: "b \<noteq> 0x5C" by simp
    let ?rs = "split_runs (b' # rest)"
    from "3.IH"(2) [OF ne w, of "d @ [c]" "Some []" "case c of None \<Rightarrow> out | Some v \<Rightarrow> out @ [0]"]
    obtain d' c' out' where
      "walk (b' # rest) (d @ [c]) (Some []) (case c of None \<Rightarrow> out | Some v \<Rightarrow> out @ [0])
         = Inr (d', c', out')"
      "d' @ [c'] = (d @ [c]) @ (Some (unescape (hd ?rs)) # map (\<lambda>r. Some (unescape r)) (tl ?rs))"
      by auto
    moreover have "Some (unescape (hd ?rs)) # map (\<lambda>r. Some (unescape r)) (tl ?rs)
                   = map (\<lambda>r. Some (unescape r)) ?rs"
      by (cases ?rs) simp_all
    ultimately show ?thesis using tab
      by (simp add: walk_cases option.map_ident)
  next
    case esc
    with "3.prems" have w: "b' \<noteq> 0x4E" "well_escaped rest" by simp_all
    from "3.IH"(1) [OF esc w(2), of d "map_option (\<lambda>v. v @ [control_char b']) c" "out @ [control_char b']"]
    show ?thesis using esc w(1)
      by (auto simp: walk_cases option.map_comp comp_def)
  next
    case byte
    with "3.prems" have w: "well_escaped (b' # rest)" by simp
    from "3.IH"(2) [OF byte(2) w, of d "map_option (\<lambda>v. v @ [b]) c" "out @ [b]"]
    show ?thesis using byte
      by (cases "hd (split_runs (b' # rest))")
         (auto simp: walk_cases option.map_comp comp_def)
  qed
qed

lemma take_prefix:
  assumes "take (length (a @ b)) xs = a @ b"
  shows "take (length a) xs = a"
proof -
  have "take (length a) xs = take (length a) (take (length (a @ b)) xs)"
    by (simp add: min_def)
  also have "\<dots> = a"
    using assms by simp
  finally show ?thesis .
qed

lemma read_row_walk:
  assumes "reads_line s line" "scans_bytewise (m_glyph_scanner s) line"
    and "walk line [] (Some []) [] = Inr (d, c, out)"
  shows "\<exists>s'. read_row s = Some (Inr (Some (m_fields s')), s') \<and> field_values s' = d @ [c]
           \<and> take (length out) (m_row s') = out"
proof -
  from assms(1) obtain rest where s: "\<not> m_finished s" "conn_lines s = Line line # rest"
    by (auto simp: reads_line_def)
  from read_row_bytewise [OF s assms(2)] assms(3) obtain s' where s':
    "read_row s = Some (Inr (Some (m_fields s')), s')" "field_values s' = d @ [c]"
    "take (length (case c of None \<Rightarrow> out | Some v \<Rightarrow> out @ [0])) (m_row s')
       = (case c of None \<Rightarrow> out | Some v \<Rightarrow> out @ [0])"
    by (auto simp: decode_def)
  from s'(3) have "take (length out) (m_row s') = out"
    by (cases c) (auto intro: take_prefix [of out "[0]"])
  with s'(1,2) show ?thesis by blast
qed

lemma read_row_walk_error:
  assumes "reads_line s line" "scans_bytewise (m_glyph_scanner s) line"
    and "walk line [] (Some []) [] = Inl e"
  shows "\<exists>s'. read_row s = Some (Inl e, s')"
proof -
  from assms(1) obtain rest where s: "\<not> m_finished s" "conn_lines s = Line line # rest"
    by (auto simp: reads_line_def)
  from read_row_bytewise [OF s assms(2)] assms(3) show ?thesis
    by (auto simp: decode_def)
qed

text \<open>
  The runs of a line, joined by tabs, are the line; and a run without a backslash
  stands for itself.
\<close>

lemma split_runs_join:
  "concat (map (\<lambda>r. r @ [0x09]) (butlast (split_runs l))) @ last (split_runs l) = l"
proof (induction l rule: split_runs.induct)
  case 1
  show ?case by simp
next
  case (2 c)
  show ?case by simp
next
  case (3 c c' rest)
  then show ?case
    by (cases "split_runs rest"; cases "split_runs (c' # rest)") (auto split: if_splits)
qed

lemma unescape_plain: "list_all (\<lambda>b. b \<noteq> 0x5C) r \<Longrightarrow> unescape r = r"
  by (induction r rule: unescape.induct) auto

section \<open>The walk over a line of glyphs\<close>

text \<open>
  A glyph that the scanner accepts in a buffer it accepts as well, at the same place,
  when bytes are added behind the buffer or in front of it.
\<close>

lemma and_thenE:
  assumes "and_then r f = Inr x"
  obtains v where "r = Inr v" "f v = Inr x"
  using assms by (auto simp: and_then_def split: sum.splits)

lemma get_byte_appendE:
  assumes "get_byte l j = Inr v"
  obtains "j < length l" "\<And>m. get_byte (l @ m) j = Inr v"
  using assms by (auto simp: get_byte_def nth_append split: if_splits)

lemma get_byte_ConsE:
  assumes "get_byte m j = Inr v"
  obtains "\<And>b. get_byte (b # m) (Suc j) = Inr v"
  using assms by (auto simp: get_byte_def split: if_splits)

lemma next_seq_extend:
  assumes "next_seq enc l (length l) i = Inr (Some g)"
  shows "next_seq enc (l @ m) (length (l @ m)) i = Inr (Some g)"
  using assms unfolding scanner_defs
  by (cases enc)
     (auto simp: and_then_simps elim!: and_thenE get_byte_appendE split: if_split_asm)

lemma next_seq_Cons:
  assumes "next_seq enc m (length m) j = Inr (Some g)"
  shows "next_seq enc (b # m) (length (b # m)) (Suc j) = Inr (Some (Suc g))"
  using assms unfolding scanner_defs
  by (cases enc)
     (auto simp: and_then_simps elim!: and_thenE get_byte_ConsE split: if_split_asm)

lemma next_seq_shift:
  assumes "next_seq enc m (length m) j = Inr (Some g)"
  shows "next_seq enc (pre @ m) (length (pre @ m)) (length pre + j) = Inr (Some (length pre + g))"
proof (induction pre)
  case Nil
  from assms show ?case by simp
next
  case (Cons b pre)
  from next_seq_Cons [OF Cons.IH, of b] show ?case by simp
qed

lemma next_seq_window:
  assumes "next_seq enc mid (length mid) j = Inr (Some g)"
  shows "next_seq enc (pre @ mid @ suf) (length (pre @ mid @ suf)) (length pre + j)
           = Inr (Some (length pre + g))"
  using next_seq_shift [OF next_seq_extend [OF assms, of suf], of pre] by simp

text \<open>
  \<open>parse_loop\<close> computes \<open>gwalk\<close>, for every line and every encoding group: each turn
  of the loop is a \<open>glyph_step\<close> on the values of the fields, and advances.
\<close>

lemma gwalk_end: "\<not> i < length line \<Longrightarrow> gwalk enc line i d c out = Some (Inr (d, c, out))"
  by (simp add: gwalk.simps)

lemma gwalk_step:
  "i < length line \<Longrightarrow> glyph_step enc line i d c out = Inr (i', d', c', out') \<Longrightarrow> i < i' \<Longrightarrow>
   gwalk enc line i d c out = gwalk enc line i' d' c' out'"
  by (subst gwalk.simps) simp

lemma gwalk_fail:
  "i < length line \<Longrightarrow> glyph_step enc line i d c out = Inl e \<Longrightarrow>
   gwalk enc line i d c out = Some (Inl e)"
  by (subst gwalk.simps) simp

lemma glyph_step_progress:
  assumes "i < length line" "glyph_step enc line i d c out = Inr (i', r)"
  shows "i < i' \<and> i' \<le> length line"
proof -
  from assms(2) obtain r0 where s: "next_seq enc line (length line) i = Inr r0"
    by (auto simp: glyph_step_def split: sum.splits)
  from next_seq_progress [OF s assms(1)] obtain g where "r0 = Some g" "i < g" "g \<le> length line"
    by blast
  with s assms show ?thesis
    by (auto simp: glyph_step_def split: if_splits)
qed

lemma copy_glyph_values:
  assumes "walk_inv (length line) p" "views_inv p" "read_ptr p + n \<le> length line"
  shows "\<exists>p'. copy_glyph line n p = Inr p' \<and> walk_inv (length line) p' \<and> views_inv p'
           \<and> read_ptr p' = read_ptr p + n \<and> done_values p' = done_values p
           \<and> cur_value p' = map_option (\<lambda>v. v @ take n (drop (read_ptr p) line)) (cur_value p)
           \<and> written p' = written p @ take n (drop (read_ptr p) line)"
  using assms
proof (induction n arbitrary: p)
  case 0
  then show ?case by (simp add: option.map_ident)
next
  case (Suc n)
  let ?b = "line ! read_ptr p"
  let ?q = "p\<lparr>read_ptr := read_ptr p + 1\<rparr>"
  from Suc.prems have lt: "read_ptr p < length line" by simp
  from Suc.prems have q: "views_inv ?q" "write_ptr ?q < length (p_row ?q)"
    by (simp_all add: walk_inv_def)
  from put_values [OF q, of ?b] obtain p1 where p1:
    "put ?b ?q = Inr p1" "done_values p1 = done_values ?q"
    "cur_value p1 = map_option (\<lambda>v. v @ [?b]) (cur_value ?q)"
    "views_inv p1" "write_ptr p1 = write_ptr ?q + 1" "read_ptr p1 = read_ptr ?q"
    "length (p_row p1) = length (p_row ?q)" "written p1 = written ?q @ [?b]"
    by blast
  from lt p1(1) have step: "copy_glyph line (Suc n) p = copy_glyph line n p1"
    by (simp add: next_char_def and_then_simps)
  from Suc.prems p1 have inv: "walk_inv (length line) p1" "read_ptr p1 + n \<le> length line"
    by (simp_all add: walk_inv_def)
  from Suc.IH [OF inv(1) p1(4) inv(2)] obtain p' where p':
    "copy_glyph line n p1 = Inr p'" "walk_inv (length line) p'" "views_inv p'"
    "read_ptr p' = read_ptr p1 + n" "done_values p' = done_values p1"
    "cur_value p' = map_option (\<lambda>v. v @ take n (drop (read_ptr p1) line)) (cur_value p1)"
    "written p' = written p1 @ take n (drop (read_ptr p1) line)"
    by blast
  from lt have t: "take (Suc n) (drop (read_ptr p) line) = ?b # take n (drop (Suc (read_ptr p)) line)"
    by (simp add: Cons_nth_drop_Suc [symmetric])
  from p' p1 have "cur_value p' = map_option (\<lambda>v. v @ take (Suc n) (drop (read_ptr p) line)) (cur_value p)"
    "written p' = written p @ take (Suc n) (drop (read_ptr p) line)"
    "read_ptr p' = read_ptr p + Suc n" "done_values p' = done_values p"
    by (simp_all add: t option.map_comp comp_def)
  with p'(1,2,3) step show ?case by simp
qed

lemma parse_glyph_step:
  assumes "walk_inv (length line) p" "views_inv p" "read_ptr p < length line"
  shows "case glyph_step enc line (read_ptr p) (done_values p) (cur_value p) (written p) of
           Inl e \<Rightarrow> (\<exists>p'. parse_glyph enc line p = Inl (e, p'))
         | Inr (i', d, c, out) \<Rightarrow>
             read_ptr p < i' \<and>
             (\<exists>p'. parse_glyph enc line p = Inr p' \<and> walk_inv (length line) p' \<and> views_inv p'
                \<and> read_ptr p' = i' \<and> done_values p' = d \<and> cur_value p' = c \<and> written p' = out)"
proof (cases "next_seq enc line (length line) (read_ptr p)")
  case (Inl e)
  then show ?thesis
    by (simp add: glyph_step_def parse_glyph_def)
next
  case (Inr r)
  from next_seq_progress [OF Inr assms(3)] obtain g where
    g: "r = Some g" "read_ptr p < g" "g \<le> length line" by blast
  let ?c = "line ! read_ptr p"
  show ?thesis
  proof (cases "g = read_ptr p + 1")
    case False
    with Inr g have pg: "parse_glyph enc line p = copy_glyph line (g - read_ptr p) p"
      by (simp add: parse_glyph_def)
    from g have "read_ptr p + (g - read_ptr p) \<le> length line" by simp
    from copy_glyph_values [OF assms(1,2) this] Inr g False show ?thesis
      by (auto simp: glyph_step_def pg)
  next
    case True
    with Inr g have pg: "parse_glyph enc line p = single_byte line p"
      by (simp add: parse_glyph_def)
    from True Inr g have gs: "next_seq enc line (length line) (read_ptr p) = Inr (Some (read_ptr p + 1))"
      by simp
    consider (tab) "?c = 0x09"
      | (plain) "?c \<noteq> 0x09" "?c \<noteq> 0x5C"
      | (last) "?c = 0x5C" "read_ptr p + 1 = length line"
      | (null) "?c = 0x5C" "read_ptr p + 1 < length line" "line ! (read_ptr p + 1) = 0x4E"
      | (esc) "?c = 0x5C" "read_ptr p + 1 < length line" "line ! (read_ptr p + 1) \<noteq> 0x4E"
      using assms(3) by fastforce
    then show ?thesis
    proof cases
      case tab
      from single_byte_tab [OF assms tab] tab show ?thesis
        by (auto simp: glyph_step_def gs pg)
    next
      case plain
      from single_byte_plain [OF assms plain] plain show ?thesis
        by (auto simp: glyph_step_def gs pg)
    next
      case last
      from single_byte_backslash_end [OF assms(3) last] last show ?thesis
        by (auto simp: glyph_step_def gs pg)
    next
      case null
      from single_byte_null [OF assms(1,2) null(2,1,3)] null show ?thesis
        by (auto simp: glyph_step_def gs pg split: if_splits)
    next
      case esc
      from single_byte_escape [OF assms(1,2) esc(2,1,3)] esc show ?thesis
        by (auto simp: glyph_step_def gs pg)
    qed
  qed
qed

lemma parse_loop_gwalk:
  assumes "walk_inv (length line) p" "views_inv p"
  shows "case gwalk enc line (read_ptr p) (done_values p) (cur_value p) (written p) of
           None \<Rightarrow> False
         | Some (Inl e) \<Rightarrow> (\<exists>p'. parse_loop enc line p = Some (Inl (e, p')))
         | Some (Inr (d, c, out)) \<Rightarrow>
             (\<exists>p'. parse_loop enc line p = Some (Inr p') \<and> walk_inv (length line) p'
                \<and> views_inv p' \<and> read_ptr p' = length line
                \<and> done_values p' = d \<and> cur_value p' = c \<and> written p' = out)"
  using assms
proof (induction "length line - read_ptr p" arbitrary: p rule: less_induct)
  case less
  show ?case
  proof (cases "read_ptr p < length line")
    case False
    with less.prems have "read_ptr p = length line" by (simp add: walk_inv_def)
    with less.prems show ?thesis
      by (subst parse_loop.simps) (simp add: gwalk_end)
  next
    case True
    note step = parse_glyph_step [OF less.prems True, of enc]
    show ?thesis
    proof (cases "glyph_step enc line (read_ptr p) (done_values p) (cur_value p) (written p)")
      case (Inl e)
      with step obtain p' where "parse_glyph enc line p = Inl (e, p')" by auto
      with True Inl show ?thesis
        by (subst parse_loop.simps) (simp add: gwalk_fail)
    next
      case (Inr r)
      obtain i' d c out where r: "r = (i', d, c, out)" by (cases r)
      with step Inr obtain p' where p':
        "read_ptr p < i'" "parse_glyph enc line p = Inr p'" "walk_inv (length line) p'"
        "views_inv p'" "read_ptr p' = i'" "done_values p' = d" "cur_value p' = c"
        "written p' = out"
        by auto
      from p'(1,5) True have "length line - read_ptr p' < length line - read_ptr p" by simp
      note IH = less.hyps [OF this p'(3,4)]
      have g: "gwalk enc line (read_ptr p) (done_values p) (cur_value p) (written p)
                 = gwalk enc line (read_ptr p') (done_values p') (cur_value p') (written p')"
        using gwalk_step [OF True] Inr r p' by simp
      have l: "parse_loop enc line p = parse_loop enc line p'"
        using True p'(2) by (subst parse_loop.simps) simp
      from IH show ?thesis unfolding g l .
    qed
  qed
qed

text \<open>
  A part of a line that is walked on its own is walked in the same way inside a longer
  line; and what a walk does to the fields ended and to the bytes written does not
  depend on what they held before.
\<close>

lemma glyph_step_window:
  assumes "j < length mid" "glyph_step enc mid j d c out = Inr (j', r)"
  shows "glyph_step enc (pre @ mid @ suf) (length pre + j) d c out = Inr (length pre + j', r)"
proof -
  let ?line = "pre @ mid @ suf"
  from assms(2) obtain r0 where s: "next_seq enc mid (length mid) j = Inr r0"
    by (auto simp: glyph_step_def split: sum.splits)
  from next_seq_progress [OF s assms(1)] obtain g where g: "r0 = Some g" "j < g" "g \<le> length mid"
    by blast
  from next_seq_window [of enc mid j g pre suf] s g
  have w: "next_seq enc ?line (length ?line) (length pre + j) = Inr (Some (length pre + g))"
    by simp
  from assms(1) have b0: "?line ! (length pre + j) = mid ! j"
    by (simp add: nth_append)
  have b1: "?line ! (length pre + j + 1) = mid ! (j + 1)" if "j + 1 < length mid"
    using that by (simp add: nth_append)
  from g have t: "take (g - j) (drop (length pre + j) ?line) = take (g - j) (drop j mid)"
    by simp
  show ?thesis
  proof (cases "g = j + 1")
    case True
    with assms s g w b0 b1 show ?thesis
      by (auto simp: glyph_step_def split: if_splits)
  next
    case False
    with assms s g w t show ?thesis
      by (auto simp: glyph_step_def)
  qed
qed

lemma gwalk_segment:
  assumes "gwalk enc mid j d c out = Some (Inr (d', c', out'))" "j \<le> length mid"
  shows "gwalk enc (pre @ mid @ suf) (length pre + j) d c out
           = gwalk enc (pre @ mid @ suf) (length pre + length mid) d' c' out'"
  using assms
proof (induction enc mid j d c out rule: gwalk.induct)
  case (1 enc mid j d c out)
  show ?case
  proof (cases "j < length mid")
    case False
    with "1.prems" show ?thesis
      by (simp add: gwalk_end)
  next
    case True
    show ?thesis
    proof (cases "glyph_step enc mid j d c out")
      case (Inl e)
      with True "1.prems"(1) show ?thesis
        by (simp add: gwalk_fail)
    next
      case (Inr r)
      obtain j1 d1 c1 out1 where r: "r = (j1, d1, c1, out1)" by (cases r)
      from glyph_step_progress [OF True, of enc d c out j1 "(d1, c1, out1)"] Inr r
      have p: "j < j1" "j1 \<le> length mid" by simp_all
      from gwalk_step [OF True, of enc d c out j1 d1 c1 out1] Inr r p(1) "1.prems"(1)
      have rest: "gwalk enc mid j1 d1 c1 out1 = Some (Inr (d', c', out'))" by simp
      from Inr r have st: "glyph_step enc mid j d c out = Inr (j1, d1, c1, out1)" by simp
      note IH = "1.IH" [OF True st refl refl refl p(1) rest p(2)]
      from glyph_step_window [OF True, of enc d c out j1 "(d1, c1, out1)" pre suf] st
      have "glyph_step enc (pre @ mid @ suf) (length pre + j) d c out
              = Inr (length pre + j1, d1, c1, out1)" by simp
      from gwalk_step [OF _ this] True p(1)
      have "gwalk enc (pre @ mid @ suf) (length pre + j) d c out
              = gwalk enc (pre @ mid @ suf) (length pre + j1) d1 c1 out1" by simp
      with IH show ?thesis by simp
    qed
  qed
qed

lemma glyph_step_frame:
  "glyph_step enc line i (d0 @ d) c (out0 @ out)
     = map_sum (\<lambda>e. e) (\<lambda>(i', d', c', out'). (i', d0 @ d', c', out0 @ out'))
         (glyph_step enc line i d c out)"
  by (simp add: glyph_step_def split: sum.splits option.splits)

lemma gwalk_frame:
  "gwalk enc line i (d0 @ d) c (out0 @ out)
     = map_option (map_sum (\<lambda>e. e) (\<lambda>(d', c', out'). (d0 @ d', c', out0 @ out')))
         (gwalk enc line i d c out)"
proof (induction enc line i d c out rule: gwalk.induct)
  case (1 enc line i d c out)
  show ?case
  proof (cases "i < length line")
    case False
    then show ?thesis by (simp add: gwalk_end)
  next
    case True
    show ?thesis
    proof (cases "glyph_step enc line i d c out")
      case (Inl e)
      with True glyph_step_frame [of enc line i d0 d c out0 out] show ?thesis
        by (simp add: gwalk_fail)
    next
      case (Inr r)
      obtain i1 d1 c1 out1 where r: "r = (i1, d1, c1, out1)" by (cases r)
      from Inr r have st: "glyph_step enc line i d c out = Inr (i1, d1, c1, out1)" by simp
      from glyph_step_progress [OF True st] have p: "i < i1" by simp
      from st glyph_step_frame [of enc line i d0 d c out0 out]
      have st': "glyph_step enc line i (d0 @ d) c (out0 @ out) = Inr (i1, d0 @ d1, c1, out0 @ out1)"
        by simp
      from "1.IH" [OF True st refl refl refl p] gwalk_step [OF True st p] gwalk_step [OF True st' p]
      show ?thesis by simp
    qed
  qed
qed

lemma gwalk_from:
  assumes "gwalk enc line i [] c [] = Some (Inr (d', c', out'))"
  shows "gwalk enc line i d0 c out0 = Some (Inr (d0 @ d', c', out0 @ out'))"
  using gwalk_frame [of enc line i d0 "[]" c out0 "[]"] assms by simp

lemma gwalk_done_prefix:
  assumes "gwalk enc line i d c out = Some (Inr (d', c', out'))"
  shows "\<exists>dm om. d' = d @ dm \<and> out' = out @ om"
proof (cases "gwalk enc line i [] c []")
  case None
  with gwalk_frame [of enc line i d "[]" c out "[]"] assms show ?thesis by simp
next
  case (Some a)
  show ?thesis
  proof (cases a)
    case (Inl e)
    with Some gwalk_frame [of enc line i d "[]" c out "[]"] assms show ?thesis by simp
  next
    case (Inr r)
    obtain d1 c1 o1 where "r = (d1, c1, o1)" by (cases r)
    with Inr Some gwalk_frame [of enc line i d "[]" c out "[]"] assms show ?thesis by simp
  qed
qed

text \<open>
  The first field of a walk: a field that is marked null stays null up to its tab, and
  a walk that ends its first field not null does the same from any bytes the field
  already holds.
\<close>

lemma gwalk_frame_inv:
  assumes "gwalk enc line i (d0 @ d) c (out0 @ out) = Some (Inr (d', c', out'))"
  shows "\<exists>dd oo. gwalk enc line i d c out = Some (Inr (dd, c', oo)) \<and> d' = d0 @ dd
           \<and> out' = out0 @ oo"
proof (cases "gwalk enc line i d c out")
  case None
  with gwalk_frame [of enc line i d0 d c out0 out] assms show ?thesis by simp
next
  case (Some a)
  show ?thesis
  proof (cases a)
    case (Inl e)
    with Some gwalk_frame [of enc line i d0 d c out0 out] assms show ?thesis by simp
  next
    case (Inr r)
    obtain d1 c1 o1 where "r = (d1, c1, o1)" by (cases r)
    with Inr Some gwalk_frame [of enc line i d0 d c out0 out] assms show ?thesis by simp
  qed
qed

lemma glyph_step_none:
  assumes "glyph_step enc line i d None out = Inr (i', d', c', out')"
  shows "(d' = d @ [None] \<and> c' = Some []) \<or> (d' = d \<and> c' = None)"
  using assms by (auto simp: glyph_step_def split: sum.splits if_splits option.splits)

lemma gwalk_none_aux:
  "gwalk enc line i d c out = Some (Inr (d', c', out')) \<Longrightarrow> c = None \<Longrightarrow>
   (d' @ [c']) ! length d = None"
proof (induction enc line i d c out rule: gwalk.induct)
  case (1 enc line i d c out)
  show ?case
  proof (cases "i < length line")
    case False
    with "1.prems" show ?thesis by (simp add: gwalk_end)
  next
    case True
    show ?thesis
    proof (cases "glyph_step enc line i d c out")
      case (Inl e)
      with True "1.prems"(1) show ?thesis by (simp add: gwalk_fail)
    next
      case (Inr r)
      obtain i1 d1 c1 o1 where r: "r = (i1, d1, c1, o1)" by (cases r)
      from Inr r have st: "glyph_step enc line i d c out = Inr (i1, d1, c1, o1)" by simp
      from glyph_step_progress [OF True st] have p: "i < i1" by simp
      from gwalk_step [OF True st p] "1.prems"(1)
      have rest: "gwalk enc line i1 d1 c1 o1 = Some (Inr (d', c', out'))" by simp
      from glyph_step_none [of enc line i d out i1 d1 c1 o1] st "1.prems"(2)
      consider (tab) "d1 = d @ [None]" "c1 = Some []" | (stay) "d1 = d" "c1 = None" by auto
      then show ?thesis
      proof cases
        case tab
        from gwalk_done_prefix [OF rest] tab obtain dm where "d' = (d @ [None]) @ dm" by auto
        then show ?thesis by (simp add: nth_append)
      next
        case stay
        from "1.IH" [OF True st refl refl refl p rest stay(2)] stay show ?thesis by simp
      qed
    qed
  qed
qed

lemma gwalk_none:
  "gwalk enc line i d None out = Some (Inr (d', c', out')) \<Longrightarrow> (d' @ [c']) ! length d = None"
  by (rule gwalk_none_aux) simp_all

lemma glyph_step_first:
  assumes "glyph_step enc line i [] (Some u) out = Inr (i', d', c', out')"
  shows "(d' = [Some u] \<and> c' = Some [] \<and> out' = out @ [0]
            \<and> (\<forall>v. glyph_step enc line i [] (Some v) out = Inr (i', [Some v], Some [], out @ [0])))
         \<or> (d' = [] \<and> c' = None)
         \<or> (\<exists>bs. d' = [] \<and> c' = Some (u @ bs) \<and> out' = out @ bs
              \<and> (\<forall>v. glyph_step enc line i [] (Some (v @ u)) out
                        = Inr (i', [], Some (v @ u @ bs), out @ bs))
              \<and> glyph_step enc line i [] None out = Inr (i', [], None, out @ bs))"
  using assms by (auto simp: glyph_step_def split: sum.splits if_splits option.splits)

lemma gwalk_first_aux:
  "gwalk enc line i d c out = Some (Inr (d', c', out')) \<Longrightarrow> d = [] \<Longrightarrow> c = Some u \<Longrightarrow>
   d' @ [c'] = Some w # ws \<Longrightarrow>
   (\<forall>v. \<exists>d'' c''. gwalk enc line i [] (Some (v @ u)) out = Some (Inr (d'', c'', out'))
            \<and> d'' @ [c''] = Some (v @ w) # ws)
   \<and> (ws = [] \<longrightarrow> (\<exists>bs. w = u @ bs \<and> out' = out @ bs
            \<and> gwalk enc line i [] None out = Some (Inr ([], None, out'))))"
proof (induction enc line i d c out arbitrary: u rule: gwalk.induct)
  case (1 enc line i d c out)
  note dc = "1.prems"(2,3)
  show ?case
  proof (cases "i < length line")
    case False
    with "1.prems" show ?thesis by (auto simp: gwalk_end)
  next
    case True
    show ?thesis
    proof (cases "glyph_step enc line i d c out")
      case (Inl e)
      with True "1.prems"(1) show ?thesis by (simp add: gwalk_fail)
    next
      case (Inr r)
      obtain i1 d1 c1 o1 where r: "r = (i1, d1, c1, o1)" by (cases r)
      from Inr r have st: "glyph_step enc line i d c out = Inr (i1, d1, c1, o1)" by simp
      from glyph_step_progress [OF True st] have p: "i < i1" by simp
      from gwalk_step [OF True st p] "1.prems"(1)
      have rest: "gwalk enc line i1 d1 c1 o1 = Some (Inr (d', c', out'))" by simp
      from st dc have st0: "glyph_step enc line i [] (Some u) out = Inr (i1, d1, c1, o1)" by simp
      from glyph_step_first [OF st0]
      consider (tab) "d1 = [Some u]" "c1 = Some []" "o1 = out @ [0]"
          "\<And>v. glyph_step enc line i [] (Some v) out = Inr (i1, [Some v], Some [], out @ [0])"
        | (null) "d1 = []" "c1 = None"
        | (app) bs where "d1 = []" "c1 = Some (u @ bs)" "o1 = out @ bs"
          "\<And>v. glyph_step enc line i [] (Some (v @ u)) out
                 = Inr (i1, [], Some (v @ u @ bs), out @ bs)"
          "glyph_step enc line i [] None out = Inr (i1, [], None, out @ bs)"
        by blast
      then show ?thesis
      proof cases
        case tab
        from rest tab have r1: "gwalk enc line i1 ([Some u] @ []) (Some []) ([] @ (out @ [0]))
                                  = Some (Inr (d', c', out'))" by simp
        from gwalk_frame_inv [OF this] obtain dd where dd:
          "gwalk enc line i1 [] (Some []) (out @ [0]) = Some (Inr (dd, c', out'))" "d' = Some u # dd"
          by auto
        from dd(2) "1.prems"(4) have w: "w = u" "ws = dd @ [c']" by simp_all
        have "gwalk enc line i [] (Some (v @ u)) out = Some (Inr (Some (v @ u) # dd, c', out'))" for v
        proof -
          from gwalk_step [OF True tab(4) p, of "v @ u"]
          have "gwalk enc line i [] (Some (v @ u)) out
                  = gwalk enc line i1 ([Some (v @ u)] @ []) (Some []) ([] @ (out @ [0]))" by simp
          also have "\<dots> = Some (Inr (Some (v @ u) # dd, c', out'))"
            unfolding gwalk_frame using dd(1) by simp
          finally show ?thesis .
        qed
        with w show ?thesis by auto
      next
        case null
        from gwalk_none [of enc line i1 "[]" o1 d' c' out'] rest null "1.prems"(4)
        show ?thesis by simp
      next
        case app
        from "1.IH" [OF True st refl refl refl p rest app(1,2) "1.prems"(4)]
        have IH1: "\<And>v. \<exists>d'' c''. gwalk enc line i1 [] (Some (v @ u @ bs)) o1 = Some (Inr (d'', c'', out'))
                      \<and> d'' @ [c''] = Some (v @ w) # ws"
          and IH2: "ws = [] \<longrightarrow> (\<exists>bs'. w = (u @ bs) @ bs' \<and> out' = o1 @ bs'
                      \<and> gwalk enc line i1 [] None o1 = Some (Inr ([], None, out')))"
          by auto
        have a: "gwalk enc line i [] (Some (v @ u)) out = gwalk enc line i1 [] (Some (v @ u @ bs)) o1" for v
          using gwalk_step [OF True app(4) p, of v] app(3) by simp
        have b: "gwalk enc line i [] None out = gwalk enc line i1 [] None o1"
          using gwalk_step [OF True app(5) p] app(3) by simp
        from IH1 IH2 app(3) show ?thesis
          unfolding a b by auto
      qed
    qed
  qed
qed

lemma gwalk_first:
  assumes "gwalk enc line i [] (Some []) out = Some (Inr (d', c', out'))" "d' @ [c'] = Some w # ws"
  shows "\<exists>d'' c''. gwalk enc line i [] (Some v) out = Some (Inr (d'', c'', out'))
            \<and> d'' @ [c''] = Some (v @ w) # ws"
  using gwalk_first_aux [OF assms(1) refl refl assms(2)] by auto

lemma gwalk_first_null:
  assumes "gwalk enc line i [] (Some []) out = Some (Inr (d', c', out'))" "d' @ [c'] = [Some w]"
  shows "out' = out @ w \<and> gwalk enc line i [] None out = Some (Inr ([], None, out @ w))"
  using gwalk_first_aux [OF assms(1) refl refl assms(2)] by auto

text \<open>\<^verbatim>\<open>read_row\<close> on a stream that reads a line, by the walk of the line.\<close>

lemma end_field_last:
  assumes "walk_inv (length line) p" "views_inv p"
  shows "\<exists>p'. end_field p = Inr p' \<and> done_values p' = done_values p @ [cur_value p]
           \<and> take (length (written p)) (p_row p') = written p
           \<and> last (p_fields p')
               = map_option (\<lambda>v. (length (written p) - length v, length v)) (cur_value p)"
proof (cases "field_begin p")
  case None
  from assms(1) have "take (length (written p)) (p_row p) = written p"
    by (simp add: written_def walk_inv_def)
  with None show ?thesis
    by (simp add: end_field_def done_values_def cur_value_def view_bytes_def)
next
  case (Some fb)
  let ?q = "p\<lparr>p_fields := p_fields p @ [Some (fb, write_ptr p - fb)]\<rparr>"
  let ?q' = "?q\<lparr>p_row := (p_row p)[write_ptr p := 0], write_ptr := write_ptr p + 1\<rparr>"
  from assms Some have q: "views_inv ?q" "write_ptr ?q < length (p_row ?q)"
    by (simp_all add: views_inv_def walk_inv_def)
  from put_in_bounds [OF q(2), of 0] have put: "put 0 ?q = Inr ?q'" by simp
  from put_values [OF q, of 0] put have dv: "done_values ?q' = done_values ?q" by simp
  from Some assms have fb: "fb \<le> write_ptr p" "write_ptr p < length (p_row p)"
    by (simp_all add: views_inv_def walk_inv_def)
  from Some put have "end_field p = Inr ?q'"
    by (simp add: end_field_def)
  moreover from dv Some have "done_values ?q' = done_values p @ [cur_value p]"
    by (simp add: done_values_def cur_value_def view_bytes_def)
  moreover from fb have "take (length (written p)) (p_row ?q') = written p"
    by (simp add: written_def min_def)
  moreover from fb Some have "last (p_fields ?q')
      = map_option (\<lambda>v. (length (written p) - length v, length v)) (cur_value p)"
    by (auto simp: cur_value_def written_def min_def)
  ultimately show ?thesis by blast
qed

lemma parse_fields_gwalk:
  "case gwalk enc line 0 [] (Some []) [] of
     None \<Rightarrow> False
   | Some (Inl e) \<Rightarrow> (\<exists>p. parse_fields enc line row0 = Some (Inl (e, p)))
   | Some (Inr (d, c, out)) \<Rightarrow>
       (\<exists>p. parse_fields enc line row0 = Some (Inr p) \<and> done_values p = d @ [c]
          \<and> take (length out) (p_row p) = out
          \<and> last (p_fields p) = map_option (\<lambda>v. (length out - length v, length v)) c)"
proof -
  let ?p0 = "\<lparr>read_ptr = 0, write_ptr = 0, field_begin = Some 0,
              p_row = resize row0 (length line + 1), p_fields = []\<rparr>"
  have inv: "walk_inv (length line) ?p0" "views_inv ?p0"
    by (simp_all add: walk_inv_def views_inv_def resize_def)
  have start: "read_ptr ?p0 = 0" "done_values ?p0 = []"
    "cur_value ?p0 = Some []" "written ?p0 = []"
    by (simp_all add: done_values_def cur_value_def written_def)
  note loop = parse_loop_gwalk [OF inv, of enc, unfolded start]
  show ?thesis
  proof (cases "gwalk enc line 0 [] (Some []) []")
    case None
    with loop show ?thesis by simp
  next
    case (Some a)
    show ?thesis
    proof (cases a)
      case (Inl e)
      with Some loop show ?thesis
        by (auto simp: parse_fields_def)
    next
      case (Inr r)
      obtain d c out where r: "r = (d, c, out)" by (cases r)
      with loop Some Inr obtain p' where p':
        "parse_loop enc line ?p0 = Some (Inr p')" "walk_inv (length line) p'" "views_inv p'"
        "done_values p' = d" "cur_value p' = c" "written p' = out"
        by auto
      from end_field_last [OF p'(2,3)] p'(4,5,6) obtain p where
        "end_field p' = Inr p" "done_values p = d @ [c]" "take (length out) (p_row p) = out"
        "last (p_fields p) = map_option (\<lambda>v. (length out - length v, length v)) c"
        by auto
      with Some Inr r p'(1) show ?thesis
        by (simp add: parse_fields_def)
    qed
  qed
qed

lemma read_row_gwalk:
  assumes "reads_line s line"
  shows "case gwalk (m_glyph_scanner s) line 0 [] (Some []) [] of
           None \<Rightarrow> False
         | Some (Inl e) \<Rightarrow> (\<exists>s'. read_row s = Some (Inl e, s'))
         | Some (Inr (d, c, out)) \<Rightarrow>
             (\<exists>s'. read_row s = Some (Inr (Some (m_fields s')), s') \<and> field_values s' = d @ [c]
                \<and> take (length out) (m_row s') = out
                \<and> last (m_fields s') = map_option (\<lambda>v. (length out - length v, length v)) c)"
proof -
  from assms obtain rest where s: "\<not> m_finished s" "conn_lines s = Line line # rest"
    by (auto simp: reads_line_def)
  let ?s1 = "s\<lparr>m_fields := [], conn_lines := rest, conn_reads := conn_reads s + 1\<rparr>"
  from s have raw: "get_raw_line (s\<lparr>m_fields := []\<rparr>) = (Inr (Some line), ?s1)"
    by (simp add: get_raw_line_def read_copy_line_def)
  note pf = parse_fields_gwalk [of "m_glyph_scanner s" line "m_row s"]
  show ?thesis
  proof (cases "gwalk (m_glyph_scanner s) line 0 [] (Some []) []")
    case None
    with pf show ?thesis by simp
  next
    case (Some a)
    show ?thesis
    proof (cases a)
      case (Inl e)
      with Some pf obtain p where
        "parse_fields (m_glyph_scanner s) line (m_row s) = Some (Inl (e, p))"
        by auto
      with Some Inl s(1) raw show ?thesis
        by (simp add: read_row_def parse_line_def)
    next
      case (Inr r)
      obtain d c out where r: "r = (d, c, out)" by (cases r)
      with pf Some Inr obtain p where p:
        "parse_fields (m_glyph_scanner s) line (m_row s) = Some (Inr p)"
        "done_values p = d @ [c]" "take (length out) (p_row p) = out"
        "last (p_fields p) = map_option (\<lambda>v. (length out - length v, length v)) c"
        by auto
      let ?s' = "?s1\<lparr>m_row := p_row p, m_fields := p_fields p\<rparr>"
      from s(1) raw p(1) have "read_row s = Some (Inr (Some (m_fields ?s')), ?s')"
        by (simp add: read_row_def parse_line_def)
      moreover from p(2) have "field_values ?s' = d @ [c]"
        by (simp add: field_values_def done_values_def)
      moreover from p(3,4) have "take (length out) (m_row ?s') = out"
        "last (m_fields ?s') = map_option (\<lambda>v. (length out - length v, length v)) c"
        by simp_all
      ultimately show ?thesis using Some Inr r by auto
    qed
  qed
qed

lemma read_row_parsed:
  assumes "reads_line t l" "read_row t = Some (Inr (Some ft), t')"
  shows "\<exists>d c out. gwalk (m_glyph_scanner t) l 0 [] (Some []) [] = Some (Inr (d, c, out))
           \<and> field_values t' = d @ [c]
           \<and> last ft = map_option (\<lambda>v. (length out - length v, length v)) c"
proof (cases "gwalk (m_glyph_scanner t) l 0 [] (Some []) []")
  case None
  with read_row_gwalk [OF assms(1)] show ?thesis by simp
next
  case (Some a)
  show ?thesis
  proof (cases a)
    case (Inl e)
    with Some read_row_gwalk [OF assms(1)] assms(2) show ?thesis by auto
  next
    case (Inr r)
    obtain d c out where "r = (d, c, out)" by (cases r)
    with Inr Some read_row_gwalk [OF assms(1)] assms(2) show ?thesis by auto
  qed
qed

lemma read_row_of_gwalk:
  assumes "reads_line s line"
    and "gwalk (m_glyph_scanner s) line 0 [] (Some []) [] = Some (Inr (d, c, out))"
  shows "\<exists>s'. read_row s = Some (Inr (Some (m_fields s')), s') \<and> field_values s' = d @ [c]
           \<and> take (length out) (m_row s') = out"
  using read_row_gwalk [OF assms(1)] assms(2) by auto

lemma read_row_of_gwalk_error:
  assumes "reads_line s line"
    and "gwalk (m_glyph_scanner s) line 0 [] (Some []) [] = Some (Inl e)"
  shows "\<exists>s'. read_row s = Some (Inl e, s')"
  using read_row_gwalk [OF assms(1)] assms(2) by auto

text \<open>
  The turns of the loop at a backslash and at a tab, which every scanner but the one of
  GB18030 takes for glyphs of one byte, and the walks of the lines that the theorems
  below are about.
\<close>

lemma glyph_step_backslash:
  assumes "enc \<noteq> GB18030" "i + 1 < length line" "line ! i = 0x5C" "line ! (i + 1) \<noteq> 0x4E"
  shows "glyph_step enc line i d c out
           = Inr (i + 2, d, map_option (\<lambda>v. v @ [control_char (line ! (i + 1))]) c,
                  out @ [control_char (line ! (i + 1))])"
  using next_seq_ascii [of enc i line] assms by (simp add: glyph_step_def)

lemma glyph_step_backslash_end:
  assumes "enc \<noteq> GB18030" "i + 1 = length line" "line ! i = 0x5C"
  shows "glyph_step enc line i d c out = Inl (Failure ''Row ends in backslash'')"
  using next_seq_ascii [of enc i line] assms by (simp add: glyph_step_def)

lemma glyph_step_null:
  assumes "enc \<noteq> GB18030" "i + 1 < length line" "line ! i = 0x5C" "line ! (i + 1) = 0x4E"
  shows "glyph_step enc line i d (Some []) out = Inr (i + 2, d, None, out)"
  using next_seq_ascii [of enc i line] assms by (simp add: glyph_step_def)

lemma glyph_step_tab:
  assumes "enc \<noteq> GB18030" "i < length line" "line ! i = 0x09"
  shows "glyph_step enc line i d c out
           = Inr (i + 1, d @ [c], Some [], case c of None \<Rightarrow> out | Some v \<Rightarrow> out @ [0])"
  using next_seq_ascii [of enc i line] assms by (simp add: glyph_step_def)

lemma gwalk_escape:
  assumes "enc \<noteq> GB18030" "b \<noteq> 0x4E"
    and l: "gwalk enc l 0 [] (Some []) [] = Some (Inr (vs, Some v, o1))"
    and p: "gwalk enc post 0 [] (Some []) [] = Some (Inr (dp, cp, o2))" "dp @ [cp] = Some w # ws"
  shows "\<exists>d c out. gwalk enc (l @ [0x5C, b] @ post) 0 [] (Some []) [] = Some (Inr (d, c, out))
           \<and> d @ [c] = vs @ [Some (v @ [control_char b] @ w)] @ ws"
proof -
  let ?line = "l @ [0x5C, b] @ post"
  let ?v = "v @ [control_char b]"
  let ?o = "o1 @ [control_char b]"
  from gwalk_segment [OF l, of "[]" "[0x5C, b] @ post"]
  have a: "gwalk enc ?line 0 [] (Some []) [] = gwalk enc ?line (length l) vs (Some v) o1"
    by simp
  have st: "glyph_step enc ?line (length l) vs (Some v) o1 = Inr (length l + 2, vs, Some ?v, ?o)"
    using glyph_step_backslash [OF assms(1), of "length l" ?line vs "Some v" o1] assms(2)
    by (simp add: nth_append)
  from gwalk_step [OF _ st]
  have b: "gwalk enc ?line (length l) vs (Some v) o1 = gwalk enc ?line (length l + 2) vs (Some ?v) ?o"
    by simp
  from gwalk_first [OF p, of ?v] obtain d2 c2 where f:
    "gwalk enc post 0 [] (Some ?v) [] = Some (Inr (d2, c2, o2))" "d2 @ [c2] = Some (?v @ w) # ws"
    by blast
  from gwalk_from [OF f(1), of vs ?o]
  have g: "gwalk enc post 0 vs (Some ?v) ?o = Some (Inr (vs @ d2, c2, ?o @ o2))" .
  from gwalk_segment [OF g, of "l @ [0x5C, b]" "[]"]
  have c: "gwalk enc ?line (length l + 2) vs (Some ?v) ?o = Some (Inr (vs @ d2, c2, ?o @ o2))"
    by (simp add: gwalk_end)
  from a b c f(2) show ?thesis by simp
qed

lemma gwalk_lone_backslash:
  assumes "enc \<noteq> GB18030" "gwalk enc l 0 [] (Some []) [] = Some (Inr (d, c, out))"
  shows "gwalk enc (l @ [0x5C]) 0 [] (Some []) [] = Some (Inl (Failure ''Row ends in backslash''))"
proof -
  from gwalk_segment [OF assms(2), of "[]" "[0x5C]"]
  have a: "gwalk enc (l @ [0x5C]) 0 [] (Some []) [] = gwalk enc (l @ [0x5C]) (length l) d c out"
    by simp
  have "glyph_step enc (l @ [0x5C]) (length l) d c out = Inl (Failure ''Row ends in backslash'')"
    using glyph_step_backslash_end [OF assms(1), of "length l" "l @ [0x5C]"] by simp
  from gwalk_fail [OF _ this] a show ?thesis by simp
qed

lemma gwalk_null_trail:
  assumes "enc \<noteq> GB18030"
    and p: "gwalk enc pre 0 [] (Some []) [] = Some (Inr (vs, Some [], o1))"
    and t: "gwalk enc trail 0 [] (Some []) [] = Some (Inr (dt, ct, ot))" "dt @ [ct] = [Some w]"
  shows "gwalk enc (pre @ [0x5C, 0x4E] @ trail @ suf) 0 [] (Some []) []
           = gwalk enc (pre @ [0x5C, 0x4E] @ trail @ suf) (length pre + 2 + length trail)
               vs None (o1 @ w)"
proof -
  let ?line = "pre @ [0x5C, 0x4E] @ trail @ suf"
  from gwalk_segment [OF p, of "[]" "[0x5C, 0x4E] @ trail @ suf"]
  have a: "gwalk enc ?line 0 [] (Some []) [] = gwalk enc ?line (length pre) vs (Some []) o1"
    by simp
  have st: "glyph_step enc ?line (length pre) vs (Some []) o1 = Inr (length pre + 2, vs, None, o1)"
    using glyph_step_null [OF assms(1), of "length pre" ?line vs o1]
    by (simp add: nth_append)
  from gwalk_step [OF _ st]
  have b: "gwalk enc ?line (length pre) vs (Some []) o1 = gwalk enc ?line (length pre + 2) vs None o1"
    by simp
  from gwalk_first_null [OF t]
  have "gwalk enc trail 0 [] None [] = Some (Inr ([], None, w))" by simp
  from gwalk_from [OF this, of vs o1]
  have g: "gwalk enc trail 0 vs None o1 = Some (Inr (vs, None, o1 @ w))" by simp
  from gwalk_segment [OF g, of "pre @ [0x5C, 0x4E]" suf]
  have c: "gwalk enc ?line (length pre + 2) vs None o1
             = gwalk enc ?line (length pre + 2 + length trail) vs None (o1 @ w)"
    by simp
  from a b c show ?thesis by simp
qed

lemma gwalk_null_field:
  assumes "enc \<noteq> GB18030"
    and p: "gwalk enc pre 0 [] (Some []) [] = Some (Inr (vs, Some [], o1))"
    and t: "gwalk enc trail 0 [] (Some []) [] = Some (Inr (dt, ct, ot))" "dt @ [ct] = [Some w]"
  shows "gwalk enc (pre @ [0x5C, 0x4E] @ trail) 0 [] (Some []) [] = Some (Inr (vs, None, o1 @ w))"
  using gwalk_null_trail [OF assms, of "[]"] by (simp add: gwalk_end)

lemma gwalk_null_field_tab:
  assumes "enc \<noteq> GB18030"
    and p: "gwalk enc pre 0 [] (Some []) [] = Some (Inr (vs, Some [], o1))"
    and t: "gwalk enc trail 0 [] (Some []) [] = Some (Inr (dt, ct, ot))" "dt @ [ct] = [Some w]"
    and r: "gwalk enc rest 0 [] (Some []) [] = Some (Inr (dr, cr, o3))"
  shows "gwalk enc (pre @ [0x5C, 0x4E] @ trail @ 0x09 # rest) 0 [] (Some []) []
           = Some (Inr (vs @ [None] @ dr, cr, o1 @ w @ o3))"
proof -
  let ?line = "pre @ [0x5C, 0x4E] @ trail @ 0x09 # rest"
  let ?n = "length pre + 2 + length trail"
  note a = gwalk_null_trail [OF assms(1) p t, of "0x09 # rest"]
  have st: "glyph_step enc ?line ?n vs None (o1 @ w) = Inr (?n + 1, vs @ [None], Some [], o1 @ w)"
    using glyph_step_tab [OF assms(1), of ?n ?line vs None "o1 @ w"]
    by (simp add: nth_append)
  from gwalk_step [OF _ st]
  have b: "gwalk enc ?line ?n vs None (o1 @ w) = gwalk enc ?line (?n + 1) (vs @ [None]) (Some []) (o1 @ w)"
    by simp
  from gwalk_from [OF r, of "vs @ [None]" "o1 @ w"]
  have g: "gwalk enc rest 0 (vs @ [None]) (Some []) (o1 @ w)
             = Some (Inr ((vs @ [None]) @ dr, cr, (o1 @ w) @ o3))" .
  from gwalk_segment [OF g, of "pre @ [0x5C, 0x4E] @ trail @ [0x09]" "[]"]
  have c: "gwalk enc ?line (?n + 1) (vs @ [None]) (Some []) (o1 @ w)
             = Some (Inr ((vs @ [None]) @ dr, cr, (o1 @ w) @ o3))"
    by (simp add: gwalk_end)
  from a b c show ?thesis by simp
qed

lemma take_drop_middle:
  assumes "take (length (a @ b @ c)) xs = a @ b @ c"
  shows "take (length b) (drop (length a) xs) = b"
proof -
  have "take (length (a @ b @ c)) xs @ drop (length (a @ b @ c)) xs = xs"
    by (rule append_take_drop_id)
  then have "xs = a @ b @ (c @ drop (length (a @ b @ c)) xs)"
    unfolding assms by simp
  then obtain ys where "xs = a @ b @ ys" by blast
  then show ?thesis by simp
qed

section \<open>Rows of lines\<close>

text \<open>
  C5, as amended. Claimed for every line of bytes below 0x80: \<^verbatim>\<open>read_row\<close> splits it at
  each unescaped tab into one field per run, each the unescaped bytes of its run. That
  fails on a line that ends in a lone backslash, where \<^verbatim>\<open>read_row\<close> throws (the
  counterexample below), and a run holding backslash-N gives a null field or an
  exception. Proved: under every encoding group but GB18030, for a line of bytes below
  0x80 in which every escape is complete and none is backslash-N, \<^verbatim>\<open>read_row\<close> returns
  one field per run between unescaped tabs, in the order of the line, none of them null,
  each showing the unescaped bytes of its run. The witness is the line \<^verbatim>\<open>a<tab>b<tab>c\<close>
  with its three fields.
\<close>

theorem C5_fields_split_at_unescaped_tabs:
  assumes "reads_line s line" "m_glyph_scanner s \<noteq> GB18030"
    and "list_all (\<lambda>b. b < 0x80) line" "well_escaped line"
  shows "\<exists>s'. read_row s = Some (Inr (Some (m_fields s')), s')
            \<and> field_values s' = map (\<lambda>r. Some (unescape r)) (split_runs line)"
proof -
  from walk_runs [OF assms(4), of "[]" "Some []" "[]"] obtain d c out where w:
    "walk line [] (Some []) [] = Inr (d, c, out)"
    "d @ [c] = Some (unescape (hd (split_runs line)))
               # map (\<lambda>r. Some (unescape r)) (tl (split_runs line))"
    by auto
  have "Some (unescape (hd (split_runs line))) # map (\<lambda>r. Some (unescape r)) (tl (split_runs line))
        = map (\<lambda>r. Some (unescape r)) (split_runs line)"
    by (cases "split_runs line") simp_all
  with w(2) read_row_walk [OF assms(1) scans_bytewise_ascii [OF assms(2,3)] w(1)] show ?thesis
    by auto
qed

theorem C5_fields_split_at_unescaped_tabs_witness:
  "reads_line (new_stream MONOBYTE [Line [0x61, 0x09, 0x62, 0x09, 0x63]])
     [0x61, 0x09, 0x62, 0x09, 0x63] \<and>
   (\<exists>s'. read_row (new_stream MONOBYTE [Line [0x61, 0x09, 0x62, 0x09, 0x63]])
            = Some (Inr (Some (m_fields s')), s')
        \<and> field_values s' = [Some [0x61], Some [0x62], Some [0x63]])"
  using C5_fields_split_at_unescaped_tabs
          [of "new_stream MONOBYTE [Line [0x61, 0x09, 0x62, 0x09, 0x63]]"
              "[0x61, 0x09, 0x62, 0x09, 0x63]"]
  by (simp add: reads_line_def new_stream_def)

theorem C5_lone_backslash_counterexample:
  "map_option fst (read_row (new_stream MONOBYTE [Line [0x61, 0x5C]]))
     = Some (Inl (Failure ''Row ends in backslash''))"
  by code_simp

text \<open>
  C6, as amended. Claimed: every line whose last byte is a backslash makes \<^verbatim>\<open>read_row\<close>
  fail. A line of two backslashes ends in a backslash and parses to one field holding a
  backslash (the counterexample below): the last byte is the escaped character. Proved,
  for every encoding group but GB18030 and every line, whatever its glyphs. Let a start
  \<open>l\<close> of the line parse on its own without an exception, so that the backslash after
  it is a glyph of its own and is not itself escaped. If \<open>l\<close> parses to fields that end
  in a field \<open>v\<close> that is not null, and the bytes \<open>post\<close> parse on their own to fields
  that begin with a field \<open>w\<close> that is not null, then \<open>l\<close>, a backslash, a byte \<open>c\<close>
  other than \<^verbatim>\<open>N\<close>, and \<open>post\<close> parse to the fields of \<open>l\<close>, the last of them
  continued by one byte and by \<open>w\<close>, and then the other fields of \<open>post\<close>: the byte is
  0x08, 0x0C, 0x0A, 0x0D, 0x09, 0x0B for \<open>c\<close> one of \<^verbatim>\<open>b f n r t v\<close>, and \<open>c\<close> itself
  otherwise. And if the line ends right after the backslash, \<^verbatim>\<open>read_row\<close> throws the
  failure "Row ends in backslash" and returns no row, whatever the fields of \<open>l\<close>, null
  or not. The witness is the line \<^verbatim>\<open>a\tb\<close>, one field holding a tab; the line of the
  bytes C3 A9 5C 74 under UTF8, one field holding the glyph of two bytes and a tab; and
  the line \<^verbatim>\<open>\N\\<close>, which fails.
\<close>

theorem C6_backslash_escapes:
  assumes "reads_line t l" "read_row t = Some (Inr (Some ft), t')"
    and "m_glyph_scanner t = m_glyph_scanner s" "m_glyph_scanner s \<noteq> GB18030"
  shows
    "(reads_line s (l @ [0x5C, c] @ post) \<and> c \<noteq> 0x4E \<and> field_values t' = vs @ [Some v] \<and>
      reads_line u post \<and> m_glyph_scanner u = m_glyph_scanner s \<and>
      read_row u = Some (Inr (Some fu), u') \<and> field_values u' = Some w # ws \<longrightarrow>
        (\<exists>s'. read_row s = Some (Inr (Some (m_fields s')), s') \<and>
           field_values s' =
             vs @ [Some (v @ [if c = 0x62 then 0x08 else if c = 0x66 then 0x0C
                              else if c = 0x6E then 0x0A else if c = 0x72 then 0x0D
                              else if c = 0x74 then 0x09 else if c = 0x76 then 0x0B
                              else c] @ w)] @ ws)) \<and>
     (reads_line s (l @ [0x5C]) \<longrightarrow>
        (\<exists>s'. read_row s = Some (Inl (Failure ''Row ends in backslash''), s')))"
proof -
  let ?enc = "m_glyph_scanner s"
  from read_row_parsed [OF assms(1,2)] assms(3) obtain d1 c1 o1 where
    l: "gwalk ?enc l 0 [] (Some []) [] = Some (Inr (d1, c1, o1))" "field_values t' = d1 @ [c1]"
    by auto
  show ?thesis
  proof (intro conjI impI)
    assume a: "reads_line s (l @ [0x5C, c] @ post) \<and> c \<noteq> 0x4E \<and> field_values t' = vs @ [Some v] \<and>
      reads_line u post \<and> m_glyph_scanner u = m_glyph_scanner s \<and>
      read_row u = Some (Inr (Some fu), u') \<and> field_values u' = Some w # ws"
    then have u: "reads_line u post" "read_row u = Some (Inr (Some fu), u')" by simp_all
    from read_row_parsed [OF u] a obtain d2 c2 o2 where
      p: "gwalk ?enc post 0 [] (Some []) [] = Some (Inr (d2, c2, o2))" "d2 @ [c2] = Some w # ws"
      by auto
    from l a have l': "gwalk ?enc l 0 [] (Some []) [] = Some (Inr (vs, Some v, o1))"
      by simp
    from a have c: "c \<noteq> 0x4E" by simp
    from gwalk_escape [OF assms(4) c l' p] obtain d3 c3 o3 where
      "gwalk ?enc (l @ [0x5C, c] @ post) 0 [] (Some []) [] = Some (Inr (d3, c3, o3))"
      "d3 @ [c3] = vs @ [Some (v @ [control_char c] @ w)] @ ws"
      by blast
    with read_row_of_gwalk [of s "l @ [0x5C, c] @ post" d3 c3 o3] a
    have "\<exists>s'. read_row s = Some (Inr (Some (m_fields s')), s') \<and>
           field_values s' = vs @ [Some (v @ [control_char c] @ w)] @ ws"
      by auto
    then show "\<exists>s'. read_row s = Some (Inr (Some (m_fields s')), s') \<and>
           field_values s' =
             vs @ [Some (v @ [if c = 0x62 then 0x08 else if c = 0x66 then 0x0C
                              else if c = 0x6E then 0x0A else if c = 0x72 then 0x0D
                              else if c = 0x74 then 0x09 else if c = 0x76 then 0x0B
                              else c] @ w)] @ ws"
      unfolding control_char_def .
  next
    assume a: "reads_line s (l @ [0x5C])"
    from read_row_of_gwalk_error [OF a gwalk_lone_backslash [OF assms(4) l(1)]]
    show "\<exists>s'. read_row s = Some (Inl (Failure ''Row ends in backslash''), s')" .
  qed
qed

theorem C6_backslash_escapes_witness:
  "(\<exists>s'. read_row (new_stream UTF8 [Line [0x61, 0x5C, 0x74, 0x62]])
            = Some (Inr (Some (m_fields s')), s')
        \<and> field_values s' = [Some [0x61, 0x09, 0x62]]) \<and>
   (\<exists>s'. read_row (new_stream UTF8 [Line [0xC3, 0xA9, 0x5C, 0x74]])
            = Some (Inr (Some (m_fields s')), s')
        \<and> field_values s' = [Some [0xC3, 0xA9, 0x09]]) \<and>
   (\<exists>s'. read_row (new_stream UTF8 [Line [0x5C, 0x4E, 0x5C]])
            = Some (Inl (Failure ''Row ends in backslash''), s'))"
proof -
  let ?res = "\<lambda>row fs. \<lparr>m_glyph_scanner = UTF8, m_finished = False, m_row = row, m_fields = fs,
                conn_lines = [], conn_reads = 1, registered = True, pending_errors = []\<rparr>"
  have rd: "reads_line (new_stream UTF8 [Line l]) l" for l
    by (simp add: reads_line_def new_stream_def)
  have sc: "m_glyph_scanner (new_stream UTF8 ls) = UTF8" for ls
    by (simp add: new_stream_def)
  have a: "read_row (new_stream UTF8 [Line [0x61]])
             = Some (Inr (Some [Some (0, 1)]), ?res [0x61, 0] [Some (0, 1)])"
    by code_simp
  have b: "read_row (new_stream UTF8 [Line [0x62]])
             = Some (Inr (Some [Some (0, 1)]), ?res [0x62, 0] [Some (0, 1)])"
    by code_simp
  have e: "read_row (new_stream UTF8 [Line [0xC3, 0xA9]])
             = Some (Inr (Some [Some (0, 2)]), ?res [0xC3, 0xA9, 0] [Some (0, 2)])"
    by code_simp
  have n: "read_row (new_stream UTF8 [Line []])
             = Some (Inr (Some [Some (0, 0)]), ?res [0] [Some (0, 0)])"
    by code_simp
  have m: "read_row (new_stream UTF8 [Line [0x5C, 0x4E]])
             = Some (Inr (Some [None]), ?res [0, 0, 0] [None])"
    by code_simp
  have v: "field_values (?res [0x61, 0] [Some (0, 1)]) = [] @ [Some [0x61]]"
    "field_values (?res [0x62, 0] [Some (0, 1)]) = Some [0x62] # []"
    "field_values (?res [0xC3, 0xA9, 0] [Some (0, 2)]) = [] @ [Some [0xC3, 0xA9]]"
    "field_values (?res [0] [Some (0, 0)]) = Some [] # []"
    by (simp_all add: field_values_def view_bytes_def)
  from C6_backslash_escapes
         [where t = "new_stream UTF8 [Line [0x61]]" and l = "[0x61]"
            and s = "new_stream UTF8 [Line [0x61, 0x5C, 0x74, 0x62]]" and c = "0x74"
            and post = "[0x62]" and vs = "[]" and v = "[0x61]"
            and u = "new_stream UTF8 [Line [0x62]]" and w = "[0x62]" and ws = "[]",
          OF rd a]
       rd [of "[0x61, 0x5C, 0x74, 0x62]"] rd [of "[0x62]"] b v
  have 1: "\<exists>s'. read_row (new_stream UTF8 [Line [0x61, 0x5C, 0x74, 0x62]])
                  = Some (Inr (Some (m_fields s')), s')
              \<and> field_values s' = [Some [0x61, 0x09, 0x62]]"
    by (simp add: sc)
  from C6_backslash_escapes
         [where t = "new_stream UTF8 [Line [0xC3, 0xA9]]" and l = "[0xC3, 0xA9]"
            and s = "new_stream UTF8 [Line [0xC3, 0xA9, 0x5C, 0x74]]" and c = "0x74"
            and post = "[]" and vs = "[]" and v = "[0xC3, 0xA9]"
            and u = "new_stream UTF8 [Line []]" and w = "[]" and ws = "[]",
          OF rd e]
       rd [of "[0xC3, 0xA9, 0x5C, 0x74]"] rd [of "[]"] n v
  have 2: "\<exists>s'. read_row (new_stream UTF8 [Line [0xC3, 0xA9, 0x5C, 0x74]])
                  = Some (Inr (Some (m_fields s')), s')
              \<and> field_values s' = [Some [0xC3, 0xA9, 0x09]]"
    by (simp add: sc)
  from C6_backslash_escapes
         [where t = "new_stream UTF8 [Line [0x5C, 0x4E]]" and l = "[0x5C, 0x4E]"
            and s = "new_stream UTF8 [Line [0x5C, 0x4E, 0x5C]]",
          OF rd m]
       rd [of "[0x5C, 0x4E, 0x5C]"]
  have 3: "\<exists>s'. read_row (new_stream UTF8 [Line [0x5C, 0x4E, 0x5C]])
                  = Some (Inl (Failure ''Row ends in backslash''), s')"
    by (simp add: sc)
  from 1 2 3 show ?thesis by blast
qed

theorem C6_escaped_backslash_counterexample:
  "map_option fst (read_row (new_stream MONOBYTE [Line [0x5C, 0x5C]]))
     = Some (Inr (Some [Some (0, 1)])) \<and>
   map_option (field_values \<circ> snd) (read_row (new_stream MONOBYTE [Line [0x5C, 0x5C]]))
     = Some [Some [0x5C]]"
  by code_simp

text \<open>
  The two lines of C7 under the encoding groups other than GB18030: there they parse as
  the claim says.
\<close>

lemma null_marker_examples:
  assumes "enc \<noteq> GB18030"
  shows "\<exists>s'. read_row (new_stream enc [Line [0x5C, 0x4E, 0x09, 0x61]])
                 = Some (Inr (Some (m_fields s')), s') \<and> field_values s' = [None, Some [0x61]]"
    and "\<exists>s'. read_row (new_stream enc [Line [0x61, 0x62, 0x5C, 0x4E, 0x63]])
                 = Some (Inl (Failure ''Null sequence found in nonempty field''), s')"
proof -
  have r: "reads_line (new_stream enc [Line l]) l" for l
    by (simp add: reads_line_def new_stream_def)
  have b: "scans_bytewise (m_glyph_scanner (new_stream enc [Line l])) l"
    if "list_all (\<lambda>b. b < 0x80) l" for l
    using that assms by (simp add: scans_bytewise_def new_stream_def)
  have "walk [0x5C, 0x4E, 0x09, 0x61] [] (Some []) [] = Inr ([None], Some [0x61], [0x61])"
    by (simp add: walk_cases)
  from read_row_walk [OF r b this]
  show "\<exists>s'. read_row (new_stream enc [Line [0x5C, 0x4E, 0x09, 0x61]])
                 = Some (Inr (Some (m_fields s')), s') \<and> field_values s' = [None, Some [0x61]]"
    by auto
  have "walk [0x61, 0x62, 0x5C, 0x4E, 0x63] [] (Some []) []
          = Inl (Failure ''Null sequence found in nonempty field'')"
    by (simp add: walk_cases)
  from read_row_walk_error [OF r b this]
  show "\<exists>s'. read_row (new_stream enc [Line [0x61, 0x62, 0x5C, 0x4E, 0x63]])
                 = Some (Inl (Failure ''Null sequence found in nonempty field''), s')"
    by auto
qed

text \<open>
  C7. Claimed: backslash-N marks a field null, so the line \<^verbatim>\<open>\N<tab>a\<close> parses to a
  null field and the field \<^verbatim>\<open>a\<close>, and the line \<^verbatim>\<open>ab\Nc\<close> raises a protocol error. On a
  GB18030 stream neither happens, since the GB18030 scanner takes a byte below 0x80 for
  the lead byte of a longer glyph (the defect of C1): the first line parses to one
  field of the four raw bytes, and the second raises a decoding error for the byte
  \<^verbatim>\<open>c\<close>.
\<close>

theorem C7_gb18030_null_marker_not_seen:
  "map_option fst (read_row (new_stream GB18030 [Line [0x5C, 0x4E, 0x09, 0x61]]))
     = Some (Inr (Some [Some (0, 4)])) \<and>
   map_option (field_values \<circ> snd) (read_row (new_stream GB18030 [Line [0x5C, 0x4E, 0x09, 0x61]]))
     = Some [Some [0x5C, 0x4E, 0x09, 0x61]] \<and>
   map_option fst (read_row (new_stream GB18030 [Line [0x61, 0x62, 0x5C, 0x4E, 0x63]]))
     = Some (Inl (Argument_Error ''GB18030'' 4 [0x63]))"
  by code_simp

text \<open>
  C10, as amended. Claimed: bytes that follow backslash-N in a field raise no error.
  They do when they hold a second backslash-N or end in a lone backslash (the
  counterexample below). Proved, for every encoding group but GB18030 and every line,
  whatever its glyphs. Let \<open>pre\<close>, the line up to the marker, parse on its own to the
  fields \<open>vs\<close> and a last field that is empty, whose view begins at the offset \<open>k\<close> of
  the row buffer; and let \<open>trail\<close>, the bytes from the marker to the next tab or to the
  end of the line, parse on their own to exactly one field \<open>w\<close>, which is not null.
  Then \<open>pre\<close>, backslash-N and \<open>trail\<close>, at the end of the line or before a tab and
  bytes \<open>rest\<close> that parse on their own, parse without an exception to the fields \<open>vs\<close>,
  a null field, and the fields of \<open>rest\<close>; and the row buffer holds \<open>w\<close> from the
  offset \<open>k\<close> on, in none of the fields. The witness is the line \<^verbatim>\<open>\Nc\<close>, the line
  \<^verbatim>\<open>\Nc<tab>d\<close>, and under UTF8 the line of backslash-N and the glyph C3 A9.
\<close>

theorem C10_bytes_after_null_marker:
  assumes "reads_line t pre" "read_row t = Some (Inr (Some ft), t')"
    and "field_values t' = vs @ [Some []]" "last ft = Some (k, n)"
    and "reads_line u trail" "read_row u = Some (Inr (Some fu), u')" "field_values u' = [Some w]"
    and "m_glyph_scanner t = m_glyph_scanner s" "m_glyph_scanner u = m_glyph_scanner s"
    and "m_glyph_scanner s \<noteq> GB18030"
  shows
    "(reads_line s (pre @ [0x5C, 0x4E] @ trail) \<longrightarrow>
        (\<exists>s'. read_row s = Some (Inr (Some (m_fields s')), s') \<and> field_values s' = vs @ [None]
            \<and> take (length w) (drop k (m_row s')) = w)) \<and>
     (reads_line s (pre @ [0x5C, 0x4E] @ trail @ 0x09 # rest) \<and> reads_line r rest \<and>
      m_glyph_scanner r = m_glyph_scanner s \<and> read_row r = Some (Inr (Some fr), r') \<longrightarrow>
        (\<exists>s'. read_row s = Some (Inr (Some (m_fields s')), s')
            \<and> field_values s' = vs @ [None] @ field_values r'
            \<and> take (length w) (drop k (m_row s')) = w))"
proof -
  let ?enc = "m_glyph_scanner s"
  from read_row_parsed [OF assms(1,2)] assms(3,4,8) obtain o1 where
    p: "gwalk ?enc pre 0 [] (Some []) [] = Some (Inr (vs, Some [], o1))" and k: "k = length o1"
    by auto
  from read_row_parsed [OF assms(5,6)] assms(7,9) obtain d2 c2 o2 where
    t: "gwalk ?enc trail 0 [] (Some []) [] = Some (Inr (d2, c2, o2))" "d2 @ [c2] = [Some w]"
    by auto
  show ?thesis
  proof (intro conjI impI)
    assume a: "reads_line s (pre @ [0x5C, 0x4E] @ trail)"
    from read_row_of_gwalk [OF a gwalk_null_field [OF assms(10) p t]] obtain s' where s':
      "read_row s = Some (Inr (Some (m_fields s')), s')" "field_values s' = vs @ [None]"
      "take (length (o1 @ w)) (m_row s') = o1 @ w"
      by blast
    from take_drop_middle [of o1 w "[]" "m_row s'"] s'(3) k
    have "take (length w) (drop k (m_row s')) = w" by simp
    with s'(1,2) show "\<exists>s'. read_row s = Some (Inr (Some (m_fields s')), s')
        \<and> field_values s' = vs @ [None] \<and> take (length w) (drop k (m_row s')) = w"
      by blast
  next
    assume a: "reads_line s (pre @ [0x5C, 0x4E] @ trail @ 0x09 # rest) \<and> reads_line r rest \<and>
      m_glyph_scanner r = m_glyph_scanner s \<and> read_row r = Some (Inr (Some fr), r')"
    then have r: "reads_line r rest" "read_row r = Some (Inr (Some fr), r')" by simp_all
    from read_row_parsed [OF r] a obtain d3 c3 o3 where
      q: "gwalk ?enc rest 0 [] (Some []) [] = Some (Inr (d3, c3, o3))" "field_values r' = d3 @ [c3]"
      by auto
    from a have rl: "reads_line s (pre @ [0x5C, 0x4E] @ trail @ 0x09 # rest)" by simp
    from read_row_of_gwalk [OF rl gwalk_null_field_tab [OF assms(10) p t q(1)]] obtain s' where s':
      "read_row s = Some (Inr (Some (m_fields s')), s')"
      "field_values s' = (vs @ [None] @ d3) @ [c3]"
      "take (length (o1 @ w @ o3)) (m_row s') = o1 @ w @ o3"
      by blast
    from take_drop_middle [of o1 w o3 "m_row s'"] s'(3) k
    have "take (length w) (drop k (m_row s')) = w" by simp
    with s'(1,2) q(2) show "\<exists>s'. read_row s = Some (Inr (Some (m_fields s')), s')
        \<and> field_values s' = vs @ [None] @ field_values r'
        \<and> take (length w) (drop k (m_row s')) = w"
      by auto
  qed
qed

theorem C10_bytes_after_null_marker_witness:
  "(\<exists>s'. read_row (new_stream UTF8 [Line [0x5C, 0x4E, 0x63]])
            = Some (Inr (Some (m_fields s')), s')
        \<and> field_values s' = [None] \<and> take 1 (m_row s') = [0x63]) \<and>
   (\<exists>s'. read_row (new_stream UTF8 [Line [0x5C, 0x4E, 0x63, 0x09, 0x64]])
            = Some (Inr (Some (m_fields s')), s')
        \<and> field_values s' = [None, Some [0x64]] \<and> take 1 (m_row s') = [0x63]) \<and>
   (\<exists>s'. read_row (new_stream UTF8 [Line [0x5C, 0x4E, 0xC3, 0xA9]])
            = Some (Inr (Some (m_fields s')), s')
        \<and> field_values s' = [None] \<and> take 2 (m_row s') = [0xC3, 0xA9])"
proof -
  let ?res = "\<lambda>row fs. \<lparr>m_glyph_scanner = UTF8, m_finished = False, m_row = row, m_fields = fs,
                conn_lines = [], conn_reads = 1, registered = True, pending_errors = []\<rparr>"
  have rd: "reads_line (new_stream UTF8 [Line l]) l" for l
    by (simp add: reads_line_def new_stream_def)
  have sc: "m_glyph_scanner (new_stream UTF8 ls) = UTF8" for ls
    by (simp add: new_stream_def)
  have n: "read_row (new_stream UTF8 [Line []])
             = Some (Inr (Some [Some (0, 0)]), ?res [0] [Some (0, 0)])"
    by code_simp
  have c: "read_row (new_stream UTF8 [Line [0x63]])
             = Some (Inr (Some [Some (0, 1)]), ?res [0x63, 0] [Some (0, 1)])"
    by code_simp
  have d: "read_row (new_stream UTF8 [Line [0x64]])
             = Some (Inr (Some [Some (0, 1)]), ?res [0x64, 0] [Some (0, 1)])"
    by code_simp
  have e: "read_row (new_stream UTF8 [Line [0xC3, 0xA9]])
             = Some (Inr (Some [Some (0, 2)]), ?res [0xC3, 0xA9, 0] [Some (0, 2)])"
    by code_simp
  have v: "field_values (?res [0] [Some (0, 0)]) = [] @ [Some []]"
    "field_values (?res [0x63, 0] [Some (0, 1)]) = [Some [0x63]]"
    "field_values (?res [0x64, 0] [Some (0, 1)]) = [Some [0x64]]"
    "field_values (?res [0xC3, 0xA9, 0] [Some (0, 2)]) = [Some [0xC3, 0xA9]]"
    by (simp_all add: field_values_def view_bytes_def)
  have k: "last [Some (0::nat, 0::nat)] = Some (0, 0)" by simp
  note inst = C10_bytes_after_null_marker
         [where t = "new_stream UTF8 [Line []]" and pre = "[]" and vs = "[]" and k = 0 and n = 0
            and u = "new_stream UTF8 [Line [0x63]]" and trail = "[0x63]" and w = "[0x63]"
            and r = "new_stream UTF8 [Line [0x64]]" and rest = "[0x64]"
            and fr = "[Some (0, 1)]" and r' = "?res [0x64, 0] [Some (0, 1)]",
          OF rd n v(1) k rd c v(2)]
  from inst [where s = "new_stream UTF8 [Line [0x5C, 0x4E, 0x63]]"] rd [of "[0x5C, 0x4E, 0x63]"]
  have 1: "\<exists>s'. read_row (new_stream UTF8 [Line [0x5C, 0x4E, 0x63]])
                  = Some (Inr (Some (m_fields s')), s')
              \<and> field_values s' = [None] \<and> take 1 (m_row s') = [0x63]"
    by (simp add: sc)
  from inst [where s = "new_stream UTF8 [Line [0x5C, 0x4E, 0x63, 0x09, 0x64]]"]
       rd [of "[0x5C, 0x4E, 0x63, 0x09, 0x64]"] rd [of "[0x64]"] d v(3)
  have 2: "\<exists>s'. read_row (new_stream UTF8 [Line [0x5C, 0x4E, 0x63, 0x09, 0x64]])
                  = Some (Inr (Some (m_fields s')), s')
              \<and> field_values s' = [None, Some [0x64]] \<and> take 1 (m_row s') = [0x63]"
    by (simp add: sc)
  from C10_bytes_after_null_marker
         [where t = "new_stream UTF8 [Line []]" and pre = "[]" and vs = "[]" and k = 0 and n = 0
            and u = "new_stream UTF8 [Line [0xC3, 0xA9]]" and trail = "[0xC3, 0xA9]"
            and w = "[0xC3, 0xA9]" and s = "new_stream UTF8 [Line [0x5C, 0x4E, 0xC3, 0xA9]]"
            and r = "new_stream UTF8 [Line [0x64]]" and rest = "[0x64]"
            and fr = "[Some (0, 1)]" and r' = "?res [0x64, 0] [Some (0, 1)]",
          OF rd n v(1) k rd e v(4)]
       rd [of "[0x5C, 0x4E, 0xC3, 0xA9]"]
  have 3: "\<exists>s'. read_row (new_stream UTF8 [Line [0x5C, 0x4E, 0xC3, 0xA9]])
                  = Some (Inr (Some (m_fields s')), s')
              \<and> field_values s' = [None] \<and> take 2 (m_row s') = [0xC3, 0xA9]"
    by (simp add: sc numeral_2_eq_2)
  from 1 2 3 show ?thesis by blast
qed

theorem C10_second_escape_counterexample:
  "map_option fst (read_row (new_stream MONOBYTE [Line [0x5C, 0x4E, 0x5C, 0x4E]]))
     = Some (Inl (Failure ''Null sequence found in nonempty field'')) \<and>
   map_option fst (read_row (new_stream MONOBYTE [Line [0x5C, 0x4E, 0x63, 0x5C]]))
     = Some (Inl (Failure ''Row ends in backslash''))"
  by code_simp

end
